theory Spec2Isabelle
  imports Complex_Main "HOL-Library.Sublist" "HOL-Library.Log_Nat"
begin

section \<open>JavaScript values and string primitives\<close>

text \<open>
  The processor works on Node.js buffers and on the text decoded from them. Both are
  modelled as \<open>string\<close>, one \<open>char\<close> per byte. A PLY header is ASCII, so an offset
  into the decoded text is the byte offset the source then uses on the buffer; the
  patterns the source searches for are ASCII as well, and an ASCII byte always decodes to
  itself.

  A JavaScript number that holds an integer is an \<open>int\<close> (exact below \<open>2 ^ 53\<close>);
  \<open>NaN\<close> and \<open>Infinity\<close> are separate values. Arithmetic that leaves the integers is
  rounded to double precision by \<open>rnd\<close> below.
\<close>

datatype number = Number int | Infinity | NaN

definition newline :: char where
  "newline = CHR 0x0A"

definition space :: char where
  "space = CHR '' ''"

definition terminator :: string where
  "terminator = ''end_header'' @ [newline]"

text \<open>\<open>String.prototype.split\<close> with a one-character separator.\<close>

fun split_on :: "char \<Rightarrow> string \<Rightarrow> string list" where
  "split_on c [] = [[]]"
| "split_on c (x # xs) =
     (if x = c then [] # split_on c xs
      else (case split_on c xs of
              [] \<Rightarrow> [[x]]
            | l # ls \<Rightarrow> (x # l) # ls))"

text \<open>\<open>Array.prototype.join\<close> with a one-character separator.\<close>

fun join :: "char \<Rightarrow> string list \<Rightarrow> string" where
  "join c [] = []"
| "join c [l] = l"
| "join c (l # m # ls) = l @ c # join c (m # ls)"

text \<open>The position of the first occurrence of a substring, if there is one.\<close>

fun find_first :: "string \<Rightarrow> string \<Rightarrow> nat option" where
  "find_first sub [] = (if sub = [] then Some 0 else None)"
| "find_first sub (c # cs) =
     (if prefix sub (c # cs) then Some 0 else map_option Suc (find_first sub cs))"

definition indexOf :: "string \<Rightarrow> string \<Rightarrow> int" where
  "indexOf s sub = (case find_first sub s of None \<Rightarrow> - 1 | Some i \<Rightarrow> int i)"

definition includes_str :: "string \<Rightarrow> string \<Rightarrow> bool" where
  "includes_str s sub = (find_first sub s \<noteq> None)"

definition startsWith :: "string \<Rightarrow> string \<Rightarrow> bool" where
  "startsWith s sub = prefix sub s"

definition endsWith :: "string \<Rightarrow> string \<Rightarrow> bool" where
  "endsWith s sub = suffix sub s"

text \<open>The white space of \<open>String.prototype.trim\<close> and \<open>parseInt\<close>, in ASCII.\<close>

definition isWhiteSpace :: "char \<Rightarrow> bool" where
  "isWhiteSpace c = (c \<in> set [CHR 0x09, CHR 0x0A, CHR 0x0B, CHR 0x0C, CHR 0x0D, CHR 0x20])"

definition trim :: "string \<Rightarrow> string" where
  "trim s = rev (dropWhile isWhiteSpace (rev (dropWhile isWhiteSpace s)))"

text \<open>
  \<open>slice\<close> of a string or a buffer. An offset is truncated to an integer; a negative
  one counts from the end; both ends are clamped to the length.
\<close>

definition adjustOffset :: "rat \<Rightarrow> nat \<Rightarrow> nat" where
  "adjustOffset offset len =
     (let t = (if offset < 0 then \<lceil>offset\<rceil> else \<lfloor>offset\<rfloor>)
      in if t < 0 then nat (t + int len) else min (nat t) len)"

definition slice :: "string \<Rightarrow> rat \<Rightarrow> rat \<Rightarrow> string" where
  "slice s start stop =
     (let a = adjustOffset start (length s); b = adjustOffset stop (length s)
      in take (b - a) (drop a s))"

definition sliceFrom :: "string \<Rightarrow> rat \<Rightarrow> string" where
  "sliceFrom s start = drop (adjustOffset start (length s)) s"

subsection \<open>Numerals\<close>

definition isDigit :: "char \<Rightarrow> bool" where
  "isDigit c = (c \<in> set ''0123456789'')"

definition digitValue :: "char \<Rightarrow> nat" where
  "digitValue c =
     (if isDigit c then of_char c - 48
      else if c \<in> set ''abcdef'' then of_char c - 87
      else of_char c - 55)"

definition isRadixDigit :: "nat \<Rightarrow> char \<Rightarrow> bool" where
  "isRadixDigit radix c =
     (if radix = 16 then isDigit c \<or> c \<in> set ''abcdef'' \<or> c \<in> set ''ABCDEF'' else isDigit c)"

definition radixValue :: "nat \<Rightarrow> string \<Rightarrow> nat" where
  "radixValue radix z = foldl (\<lambda>acc c. acc * radix + digitValue c) 0 z"

text \<open>
  \<open>parseInt\<close> without a radix argument: leading white space, a sign, a \<open>0x\<close> prefix,
  then the longest run of digits; \<open>NaN\<close> when that run is empty.
\<close>

definition parseInt :: "string \<Rightarrow> number" where
  "parseInt s =
     (let s1 = dropWhile isWhiteSpace s;
          neg = startsWith s1 ''-'';
          s2 = (if startsWith s1 ''-'' \<or> startsWith s1 ''+'' then drop 1 s1 else s1);
          hex = (startsWith s2 ''0x'' \<or> startsWith s2 ''0X'');
          radix = (if hex then 16 else 10);
          s3 = (if hex then drop 2 s2 else s2);
          z = takeWhile (isRadixDigit radix) s3
      in if z = [] then NaN
         else Number ((if neg then - 1 else 1) * int (radixValue radix z)))"

text \<open>\<open>parts[2]\<close> may be \<open>undefined\<close>, which \<open>parseInt\<close> turns into \<open>NaN\<close>.\<close>

definition parseIntAt :: "string list \<Rightarrow> nat \<Rightarrow> number" where
  "parseIntAt parts i = (if i < length parts then parseInt (parts ! i) else NaN)"

fun decimal :: "nat \<Rightarrow> string" where
  "decimal n =
     (if n < 10 then [char_of (48 + n)]
      else decimal (n div 10) @ [char_of (48 + n mod 10)])"

declare decimal.simps [simp del]

text \<open>A number inside a template literal.\<close>

definition numberToString :: "number \<Rightarrow> string" where
  "numberToString x =
     (case x of
        Number n \<Rightarrow> (if n < 0 then CHR ''-'' # decimal (nat (- n)) else decimal (nat n))
      | Infinity \<Rightarrow> ''Infinity''
      | NaN \<Rightarrow> ''NaN'')"

text \<open>
  The first match of \<open>/element vertex (\d+)/\<close>: its group, the longest run of digits
  after the leftmost place where the pattern fits.
\<close>

fun matchVertex :: "string \<Rightarrow> string option" where
  "matchVertex [] = None"
| "matchVertex (c # cs) =
     (if prefix ''element vertex '' (c # cs)
         \<and> takeWhile isDigit (drop 15 (c # cs)) \<noteq> []
      then Some (takeWhile isDigit (drop 15 (c # cs)))
      else matchVertex cs)"

section \<open>The processor\<close>

record processer =
  originalHeader :: string
  vertexCount :: number
  propertyTypes :: "(string \<times> string) list"
  maxShDegree :: nat

definition initial :: processer where
  "initial = \<lparr>originalHeader = [], vertexCount = Number 0, propertyTypes = [], maxShDegree = 0\<rparr>"

text \<open>\<open>Map.prototype.set\<close>: a known key keeps its place, a new one goes last.\<close>

fun mapSet :: "string \<Rightarrow> string \<Rightarrow> (string \<times> string) list \<Rightarrow> (string \<times> string) list" where
  "mapSet k v [] = [(k, v)]"
| "mapSet k v (p # ps) = (if fst p = k then (k, v) # ps else p # mapSet k v ps)"

subsection \<open>getTypeSize\<close>

text \<open>
  The table is an object literal, so a key it does not hold is looked up in
  \<open>Object.prototype\<close>: for the names below the lookup gives a function or an object,
  which is truthy, and \<open>|| 4\<close> does not apply.
\<close>

datatype lookup = Width nat | Inherited

definition typeSizes :: "(string \<times> nat) list" where
  "typeSizes =
     [(''float32'', 4), (''float'', 4), (''float64'', 8),
      (''uint8'', 1), (''uchar'', 1),
      (''int32'', 4), (''int'', 4),
      (''uint32'', 4)]"

definition objectPrototypeKeys :: "string list" where
  "objectPrototypeKeys =
     [''constructor'', ''hasOwnProperty'', ''isPrototypeOf'', ''propertyIsEnumerable'',
      ''toLocaleString'', ''toString'', ''valueOf'', ''__proto__'',
      ''__defineGetter__'', ''__defineSetter__'', ''__lookupGetter__'', ''__lookupSetter__'']"

definition getTypeSize :: "string \<Rightarrow> lookup" where
  "getTypeSize typeName =
     (case map_of typeSizes typeName of
        Some n \<Rightarrow> (if n = 0 then Width 4 else Width n)
      | None \<Rightarrow> (if typeName \<in> set objectPrototypeKeys then Inherited else Width 4))"

subsection \<open>readPlyHeader\<close>

text \<open>One round of the loop over the header lines: the vertex count, the map, \<open>extraFNames\<close>.\<close>

definition scanLine ::
  "number \<times> (string \<times> string) list \<times> string list \<Rightarrow> string
     \<Rightarrow> number \<times> (string \<times> string) list \<times> string list" where
  "scanLine acc line =
     (case acc of (vc, pts, extraFNames) \<Rightarrow>
        (let trimmedLine = trim line
         in if trimmedLine = [] then acc
            else if includes_str trimmedLine ''element vertex''
              then (parseIntAt (split_on space trimmedLine) 2, pts, extraFNames)
            else if startsWith trimmedLine ''property''
              then (let parts = split_on space trimmedLine
                    in if length parts \<ge> 3
                       then (let propName = parts ! 2; propType = parts ! 1
                             in (vc, mapSet propName propType pts,
                                 if startsWith propName ''f_rest_''
                                 then extraFNames @ [propName] else extraFNames))
                       else acc)
            else acc))"

definition headerEndIndexOf :: "string \<Rightarrow> int" where
  "headerEndIndexOf fileStr = indexOf fileStr terminator + int (length terminator)"

definition scanHeader ::
  "processer \<Rightarrow> string \<Rightarrow> number \<times> (string \<times> string) list \<times> string list" where
  "scanHeader st hdr =
     foldl scanLine (vertexCount st, propertyTypes st, []) (split_on newline hdr)"

definition degreeOf :: "nat \<Rightarrow> nat \<Rightarrow> nat" where
  "degreeOf previous n =
     (if n = 0 then 0
      else if n = 9 then 1
      else if n = 24 then 2
      else if n = 45 then 3
      else previous)"

record parsed =
  headerEndIndex :: int
  vertexData :: string

definition readPlyHeader :: "processer \<Rightarrow> string \<Rightarrow> processer \<times> parsed" where
  "readPlyHeader st data =
     (let hei = headerEndIndexOf data;
          hdr = slice data 0 (of_int hei)
      in case scanHeader st hdr of (vc, pts, extraFNames) \<Rightarrow>
           (\<lparr>originalHeader = hdr, vertexCount = vc, propertyTypes = pts,
             maxShDegree = degreeOf (maxShDegree st) (length extraFNames)\<rparr>,
            \<lparr>headerEndIndex = hei, vertexData = sliceFrom data (of_int hei)\<rparr>))"

subsection \<open>createChunkHeader\<close>

definition vertexLine :: "number \<Rightarrow> string" where
  "vertexLine numVertices = ''element vertex '' @ numberToString numVertices"

definition createChunkHeader :: "processer \<Rightarrow> number \<Rightarrow> string" where
  "createChunkHeader st numVertices =
     (let modifiedLines =
            map (\<lambda>line. if includes_str line ''element vertex'' then vertexLine numVertices else line)
              (split_on newline (originalHeader st));
          header = join newline modifiedLines
      in if \<not> endsWith header [newline] then header @ [newline] else header)"

section \<open>Double precision\<close>

text \<open>
  Round to nearest, ties to even, with a significand of 53 bits. The exponent range is
  not bounded: the values of this program stay far from overflow and from subnormals.
\<close>

definition fexp :: "rat \<Rightarrow> int" where
  "fexp x =
     (case quotient_of \<bar>x\<bar> of (p, q) \<Rightarrow>
        (let e = bitlen p - bitlen q in if 2 powi e \<le> \<bar>x\<bar> then e else e - 1))"

definition roundHalfEven :: "rat \<Rightarrow> int" where
  "roundHalfEven y =
     (let f = \<lfloor>y\<rfloor>; r = y - of_int f
      in if r < 1 / 2 then f
         else if 1 / 2 < r then f + 1
         else if even f then f else f + 1)"

definition rnd :: "rat \<Rightarrow> rat" where
  "rnd x =
     (if x = 0 then 0
      else (let s = 2 powi (fexp x - 52) in of_int (roundHalfEven (x / s)) * s))"

definition EXPECTED_COMPRESSION_RATE :: rat where
  "EXPECTED_COMPRESSION_RATE = rnd (9 / 10)"

definition BASE64_OVERHEAD :: rat where
  "BASE64_OVERHEAD = rnd (125 / 100)"

text \<open>Addition, and the absolute difference, of numbers that are integers, infinite or \<open>NaN\<close>.\<close>

definition addNumber :: "number \<Rightarrow> number \<Rightarrow> number" where
  "addNumber x y =
     (case (x, y) of
        (Number a, Number b) \<Rightarrow> Number (a + b)
      | (NaN, _) \<Rightarrow> NaN
      | (_, NaN) \<Rightarrow> NaN
      | _ \<Rightarrow> Infinity)"

definition absDiff :: "number \<Rightarrow> number \<Rightarrow> number" where
  "absDiff x y =
     (case (x, y) of
        (Number a, Number b) \<Rightarrow> Number \<bar>a - b\<bar>
      | (NaN, _) \<Rightarrow> NaN
      | (_, NaN) \<Rightarrow> NaN
      | (Infinity, Infinity) \<Rightarrow> NaN
      | _ \<Rightarrow> Infinity)"

definition positive :: "number \<Rightarrow> bool" where
  "positive x = (case x of Number a \<Rightarrow> 0 < a | Infinity \<Rightarrow> True | NaN \<Rightarrow> False)"

section \<open>split\<close>

subsection \<open>Chunk sizing\<close>

text \<open>
  The sum over the values of the map. Once \<open>getTypeSize\<close> has given something that is
  not a number, \<open>+\<close> concatenates strings and the sum is no number any more: \<open>None\<close>.
\<close>

definition bytesPerVertex :: "processer \<Rightarrow> nat option" where
  "bytesPerVertex st =
     foldl (\<lambda>sum t. case sum of
                       None \<Rightarrow> None
                     | Some s \<Rightarrow> (case getTypeSize t of Width w \<Rightarrow> Some (s + w) | Inherited \<Rightarrow> None))
       (Some 0) (map snd (propertyTypes st))"

definition verticesPerChunk :: "processer \<Rightarrow> int \<Rightarrow> number" where
  "verticesPerChunk st targetSizeBytes =
     (let headerSize = int (length (originalHeader st));
          availableSize = targetSizeBytes - headerSize
      in case bytesPerVertex st of
           None \<Rightarrow> NaN
         | Some b \<Rightarrow>
             (let d = rnd (rnd (of_nat b * rnd (1 - EXPECTED_COMPRESSION_RATE)) * BASE64_OVERHEAD)
              in if d = 0
                 then (if 0 < availableSize then Infinity
                       else if availableSize < 0 then Number 1 else NaN)
                 else Number (max 1 \<lfloor>rnd (of_int availableSize / d)\<rfloor>)))"

text \<open>
  \<open>Math.ceil(this.vertexCount / verticesPerChunk)\<close>. The divisor is never zero:
  \<open>verticesPerChunk\<close> is at least 1 when it is an integer.
\<close>

definition numChunksOf :: "number \<Rightarrow> number \<Rightarrow> number" where
  "numChunksOf vc vpc =
     (case vc of
        Number n \<Rightarrow>
          (case vpc of
             Number v \<Rightarrow> Number \<lceil>rnd (of_int n / of_int v)\<rceil>
           | Infinity \<Rightarrow> Number 0
           | NaN \<Rightarrow> NaN)
      | _ \<Rightarrow> NaN)"

text \<open>How often \<open>for (let i = 0; i < numChunks; i++)\<close> runs.\<close>

definition iterations :: "number \<Rightarrow> nat" where
  "iterations numChunks = (case numChunks of Number k \<Rightarrow> nat k | _ \<Rightarrow> 0)"

subsection \<open>Emission\<close>

text \<open>The chunk directory: the content of \<open>chunk_<index>.ply\<close>, when that file can be read.\<close>

type_synonym store = "nat \<Rightarrow> string option"

definition chunkFile :: "processer \<Rightarrow> string \<Rightarrow> int \<Rightarrow> int \<Rightarrow> rat \<Rightarrow> nat \<Rightarrow> int \<times> string" where
  "chunkFile st vData vpc vc actualBytesPerVertex i =
     (let startIdx = int i * vpc;
          endIdx = min ((int i + 1) * vpc) vc;
          numVertices = endIdx - startIdx;
          startByte = rnd (of_int startIdx * actualBytesPerVertex);
          endByte = rnd (of_int endIdx * actualBytesPerVertex);
          chunkData = slice vData startByte endByte
      in (numVertices, createChunkHeader st (Number numVertices) @ chunkData))"

definition emitChunks ::
  "processer \<Rightarrow> string \<Rightarrow> int \<Rightarrow> int \<Rightarrow> nat \<Rightarrow> store \<Rightarrow> store \<times> int" where
  "emitChunks st vData vpc vc nChunks fs =
     (let actualBytesPerVertex = rnd (of_nat (length vData) / of_int vc)
      in foldl (\<lambda>(fs', totalProcessedVertices) i.
                  (case chunkFile st vData vpc vc actualBytesPerVertex i of
                     (numVertices, content) \<Rightarrow>
                       (fs'(i \<mapsto> content), totalProcessedVertices + numVertices)))
           (fs, 0) [0..<nChunks])"

subsection \<open>Verification\<close>

datatype chunkFailure = NoVertexCountFound | Unreadable

datatype error =
    VertexCountMismatch number number number
  | ReadError nat
  | HeaderInfoMissing

definition verifyStep ::
  "store \<Rightarrow> number \<times> (nat \<times> chunkFailure) list \<Rightarrow> nat \<Rightarrow> number \<times> (nat \<times> chunkFailure) list" where
  "verifyStep fs acc i =
     (case acc of (verifiedVertices, failedChunks) \<Rightarrow>
        (case fs i of
           None \<Rightarrow> (verifiedVertices, failedChunks @ [(i, Unreadable)])
         | Some chunkContent \<Rightarrow>
             (case matchVertex chunkContent of
                Some digits \<Rightarrow> (addNumber verifiedVertices (parseInt digits), failedChunks)
              | None \<Rightarrow> (verifiedVertices, failedChunks @ [(i, NoVertexCountFound)]))))"

definition verifyPass :: "store \<Rightarrow> nat \<Rightarrow> number \<times> (nat \<times> chunkFailure) list" where
  "verifyPass fs nChunks = foldl (verifyStep fs) (Number 0, []) [0..<nChunks]"

record splitResult =
  numChunks :: number
  totalVertices :: number
  processedVertices :: int
  failedChunks :: "(nat \<times> chunkFailure) list"

text \<open>
  The end of \<open>split\<close>: the difference is printed, then the error is thrown with the two
  counts in its message. The first field of \<open>VertexCountMismatch\<close> is the printed difference.
\<close>

definition verifyChunks :: "processer \<Rightarrow> store \<Rightarrow> number \<Rightarrow> int \<Rightarrow> error + splitResult" where
  "verifyChunks st fs nChunks totalProcessedVertices =
     (case verifyPass fs (iterations nChunks) of (verifiedVertices, failed) \<Rightarrow>
        (let vertexDiff = absDiff (vertexCount st) verifiedVertices
         in if positive vertexDiff
            then Inl (VertexCountMismatch vertexDiff (vertexCount st) verifiedVertices)
            else Inr \<lparr>numChunks = nChunks, totalVertices = verifiedVertices,
                      processedVertices = totalProcessedVertices, failedChunks = failed\<rparr>))"

definition split_file :: "processer \<Rightarrow> string \<Rightarrow> store \<Rightarrow> int \<Rightarrow> processer \<times> store \<times> (error + splitResult)" where
  "split_file st data fs targetSizeBytes =
     (let vpc = verticesPerChunk st targetSizeBytes
      in case readPlyHeader st data of (st', p) \<Rightarrow>
           (let nChunks = numChunksOf (vertexCount st') vpc
            in case (vertexCount st', vpc) of
                 (Number vc, Number v) \<Rightarrow>
                   (case emitChunks st' (vertexData p) v vc (iterations nChunks) fs of
                      (fs', totalProcessed) \<Rightarrow> (st', fs', verifyChunks st' fs' nChunks totalProcessed))
               | _ \<Rightarrow> (st', fs, verifyChunks st' fs nChunks 0)))"

section \<open>createGroups\<close>

text \<open>\<open>readChunkPly\<close> and \<open>mergeChunks\<close>. A chunk file that cannot be read makes the merge throw.\<close>

definition readChunkPly :: "string \<Rightarrow> parsed" where
  "readChunkPly data =
     (let hei = headerEndIndexOf data
      in \<lparr>headerEndIndex = hei, vertexData = sliceFrom data (of_int hei)\<rparr>)"

fun mergeLoop :: "store \<Rightarrow> nat list \<Rightarrow> number \<times> string \<Rightarrow> error + number \<times> string" where
  "mergeLoop fs [] acc = Inr acc"
| "mergeLoop fs (index # rest) acc =
     (case acc of (summed, mergedData) \<Rightarrow>
        (case fs index of
           None \<Rightarrow> Inl (ReadError index)
         | Some chunkContent \<Rightarrow>
             mergeLoop fs rest
               (case matchVertex chunkContent of
                  Some digits \<Rightarrow> addNumber summed (parseInt digits)
                | None \<Rightarrow> summed,
                mergedData @ vertexData (readChunkPly chunkContent))))"

record merged =
  content :: string
  mergedCount :: number

definition mergeChunks :: "processer \<Rightarrow> store \<Rightarrow> nat list \<Rightarrow> error + merged" where
  "mergeChunks st fs chunkIndices =
     (case mergeLoop fs chunkIndices (Number 0, []) of
        Inl e \<Rightarrow> Inl e
      | Inr (summed, mergedData) \<Rightarrow>
          Inr \<lparr>content = createChunkHeader st summed @ mergedData,
               mergedCount = summed\<rparr>)"

text \<open>
  The grouping loop \<open>for (let i = 0; i < files.length; i += effectiveGroupSize)\<close>. Only
  the number of chunk files enters. Each round merges one run of indices; the list holds
  every group the loop attempts, with what \<open>mergeChunks\<close> returned for it.
\<close>

record group =
  groupId :: int
  groupIndices :: "nat list"
  result :: "error + merged"

definition groupAt :: "processer \<Rightarrow> store \<Rightarrow> int \<Rightarrow> int \<Rightarrow> int \<Rightarrow> group" where
  "groupAt st fs len effectiveGroupSize i =
     (let indices = map (\<lambda>idx. nat (i + int idx)) [0..<nat (min effectiveGroupSize (len - i))]
      in \<lparr>groupId = \<lfloor>rnd (of_int i / of_int effectiveGroupSize)\<rfloor>,
          groupIndices = indices,
          result = mergeChunks st fs indices\<rparr>)"

partial_function (option) groupsLoop ::
  "processer \<Rightarrow> store \<Rightarrow> int \<Rightarrow> int \<Rightarrow> int \<Rightarrow> group list \<Rightarrow> group list option" where
  "groupsLoop st fs len effectiveGroupSize i acc =
     (if i < len
      then groupsLoop st fs len effectiveGroupSize (i + effectiveGroupSize)
             (acc @ [groupAt st fs len effectiveGroupSize i])
      else Some acc)"

declare groupsLoop.simps [code]

text \<open>
  \<open>createGroups\<close>: \<open>saved\<close> is the header information of an earlier split, used when the
  processor has no header yet; \<open>fileCount\<close> is the number of chunk files in the directory.
\<close>

definition createGroups ::
  "processer \<Rightarrow> processer option \<Rightarrow> store \<Rightarrow> nat \<Rightarrow> int \<Rightarrow> (error + group list) option" where
  "createGroups st saved fs fileCount groupSize =
     (let effectiveGroupSize = (if groupSize = - 1 then int fileCount else groupSize)
      in if originalHeader st = []
         then (case saved of
                 None \<Rightarrow> Some (Inl HeaderInfoMissing)
               | Some st' \<Rightarrow>
                   map_option Inr (groupsLoop st' fs (int fileCount) effectiveGroupSize 0 []))
         else map_option Inr (groupsLoop st fs (int fileCount) effectiveGroupSize 0 []))"

section \<open>Notions used to state the properties\<close>

text \<open>The type tokens of the width table.\<close>

definition knownTypes :: "string list" where
  "knownTypes =
     [''float32'', ''float'', ''float64'', ''uint8'', ''uchar'', ''int32'', ''int'', ''uint32'']"




text \<open>What \<open>createChunkHeader\<close> does to one line of the header.\<close>

definition rewriteLine :: "number \<Rightarrow> string \<Rightarrow> string" where
  "rewriteLine n line = (if includes_str line ''element vertex'' then vertexLine n else line)"

definition commentHeader :: string where
  "commentHeader =
     ''ply'' @ [newline] @ ''comment element vertex count'' @ [newline]
     @ ''element vertex 3'' @ [newline] @ ''end_header'' @ [newline]"

definition plainHeader :: string where
  "plainHeader =
     ''ply'' @ [newline] @ ''element vertex 12'' @ [newline]
     @ ''property float x'' @ [newline] @ ''end_header'' @ [newline]"

definition noTerminator :: string where
  "noTerminator = ''ply'' @ [newline] @ ''element vertex 4'' @ [newline] @ ''abcdefgh''"

definition noVertexLine :: string where
  "noVertexLine =
     ''ply'' @ [newline] @ ''property float x'' @ [newline]
     @ ''end_header'' @ [newline] @ ''abcdefgh''"

definition notPly :: string where
  "notPly = ''some bytes that are not a point cloud''"

text \<open>
  The vertex count a chunk file declares: the number after the first \<open>element vertex\<close>
  that digits follow, anywhere in the file; 0 when there is none or the file cannot be read.
\<close>

definition declaredCount :: "string \<Rightarrow> int" where
  "declaredCount chunkContent =
     (case matchVertex chunkContent of
        None \<Rightarrow> 0
      | Some digits \<Rightarrow> int (radixValue 10 digits))"

definition readableCount :: "string option \<Rightarrow> int" where
  "readableCount file =
     (case file of None \<Rightarrow> 0 | Some chunkContent \<Rightarrow> declaredCount chunkContent)"

text \<open>The entry of \<open>failedChunks\<close> that chunk \<open>i\<close> gives rise to, if any.\<close>

definition failureOf :: "store \<Rightarrow> nat \<Rightarrow> (nat \<times> chunkFailure) list" where
  "failureOf fs i =
     (case fs i of
        None \<Rightarrow> [(i, Unreadable)]
      | Some chunkContent \<Rightarrow>
          (case matchVertex chunkContent of
             None \<Rightarrow> [(i, NoVertexCountFound)]
           | Some _ \<Rightarrow> []))"

definition countedChunk :: string where
  "countedChunk =
     ''ply'' @ [newline] @ ''element vertex 2'' @ [newline] @ ''end_header'' @ [newline]
     @ ''abcdefgh''"

definition uncountedChunk :: string where
  "uncountedChunk = ''ply'' @ [newline] @ ''end_header'' @ [newline] @ ''ijklmnop''"


definition twoChunks :: store where
  "twoChunks = [0 \<mapsto> countedChunk, 1 \<mapsto> uncountedChunk]"

definition noChunks :: store where
  "noChunks = Map.empty"


text \<open>The width a type token adds to a vertex record.\<close>

definition widthOf :: "string \<Rightarrow> nat" where
  "widthOf t = (case getTypeSize t of Width w \<Rightarrow> w | Inherited \<Rightarrow> 0)"

text \<open>The divisor of the chunk-sizing formula, for the record width \<open>b\<close>.\<close>

definition divisor :: "nat \<Rightarrow> rat" where
  "divisor b = rnd (rnd (of_nat b * rnd (1 - EXPECTED_COMPRESSION_RATE)) * BASE64_OVERHEAD)"

text \<open>
  A header of 120 bytes that declares 10000 vertices of four \<open>float64\<close> properties,
  32 bytes each, and the processor that has read it.
\<close>

definition scenarioHeader :: string where
  "scenarioHeader =
     ''ply'' @ [newline] @ ''comment'' @ [newline] @ ''element vertex 10000'' @ [newline]
     @ ''property float64 a'' @ [newline] @ ''property float64 b'' @ [newline]
     @ ''property float64 c'' @ [newline] @ ''property float64 d'' @ [newline]
     @ ''end_header'' @ [newline]"

definition scenario :: processer where
  "scenario = fst (readPlyHeader initial scenarioHeader)"


text \<open>A header as its lines, each one closed by a newline.\<close>

definition unlines :: "string list \<Rightarrow> string" where
  "unlines ls = concat (map (\<lambda>l. l @ [newline]) ls)"

text \<open>The terminator closes the last of these lines and no line before it.\<close>

definition termLines :: "string list \<Rightarrow> bool" where
  "termLines ls = ((\<forall>l \<in> set (butlast ls). \<not> suffix ''end_header'' l) \<and> suffix ''end_header'' (last ls))"

text \<open>
  What \<open>split\<close> writes for \<open>M\<close> vertices of \<open>w\<close> bytes and \<open>V\<close> vertices per
  chunk: the number of chunks, the vertices and the bytes of chunk \<open>i\<close>, its file, and
  the chunk directory afterwards.
\<close>

definition chunkCount :: "nat \<Rightarrow> nat \<Rightarrow> nat" where
  "chunkCount M V = (M + V - 1) div V"

definition chunkVertices :: "nat \<Rightarrow> nat \<Rightarrow> nat \<Rightarrow> nat" where
  "chunkVertices M V i = min ((i + 1) * V) M - i * V"

definition chunkBytes :: "string \<Rightarrow> nat \<Rightarrow> nat \<Rightarrow> nat \<Rightarrow> nat \<Rightarrow> string" where
  "chunkBytes payload M V w i =
     take (min ((i + 1) * V) M * w - i * V * w) (drop (i * V * w) payload)"

definition chunkContent :: "processer \<Rightarrow> string \<Rightarrow> nat \<Rightarrow> nat \<Rightarrow> nat \<Rightarrow> nat \<Rightarrow> string" where
  "chunkContent st payload M V w i =
     createChunkHeader st (Number (int (chunkVertices M V i))) @ chunkBytes payload M V w i"

definition emitted :: "processer \<Rightarrow> string \<Rightarrow> nat \<Rightarrow> nat \<Rightarrow> nat \<Rightarrow> store \<Rightarrow> store" where
  "emitted st payload M V w fs =
     (\<lambda>i. if i < chunkCount M V then Some (chunkContent st payload M V w i) else fs i)"

text \<open>
  A file of 12 vertices of 4 bytes, read as \<open>runSplit\<close> does before it calls
  \<open>split\<close>, and a file that declares no vertex.
\<close>

definition payload48 :: string where
  "payload48 = ''0123456789abcdefghijklmnopqrstuvwxyzABCDEFGHIJKL''"

definition roundTripData :: string where
  "roundTripData = plainHeader @ payload48"

definition roundTripState :: processer where
  "roundTripState = fst (readPlyHeader initial roundTripData)"

definition emptyCloud :: string where
  "emptyCloud =
     ''ply'' @ [newline] @ ''element vertex 0'' @ [newline]
     @ ''property float x'' @ [newline] @ ''end_header'' @ [newline]"

text \<open>Bytes that are all ASCII: each one decodes to one character of the text, itself.\<close>

definition isAscii :: "string \<Rightarrow> bool" where
  "isAscii s = list_all (\<lambda>b. of_char b < (128 :: nat)) s"





section \<open>Properties of the header codec\<close>

subsection \<open>Width lookup\<close>

text \<open>
  C8, as the code has it: a type token outside the width table raises nothing. The lookup
  falls back to the width 4 (for every token that does not name a member of
  \<open>Object.prototype\<close>); the tokens of the table have the widths 4, 4, 8, 1, 1, 4, 4, 4.
\<close>

theorem getTypeSize_default:
  "(t \<notin> set knownTypes \<and> t \<notin> set objectPrototypeKeys \<longrightarrow> getTypeSize t = Width 4)
   \<and> map getTypeSize knownTypes
       = [Width 4, Width 4, Width 8, Width 1, Width 1, Width 4, Width 4, Width 4]"
  by (simp add: getTypeSize_def typeSizes_def knownTypes_def)

theorem getTypeSize_default_witness:
  "''int16'' \<notin> set knownTypes \<and> ''int16'' \<notin> set objectPrototypeKeys
   \<and> getTypeSize ''int16'' = Width 4"
  using getTypeSize_default [of "''int16''"]
  by (simp add: knownTypes_def objectPrototypeKeys_def)

text \<open>The token \<open>double\<close> is not in the table, and its lookup returns the width 4.\<close>

theorem getTypeSize_unknown_counterexample:
  "''double'' \<notin> set knownTypes \<and> getTypeSize ''double'' = Width 4"
  by (simp add: getTypeSize_def typeSizes_def knownTypes_def objectPrototypeKeys_def)

subsection \<open>Spherical-harmonics degree\<close>







subsection \<open>Lines\<close>

lemma split_on_nonempty: "split_on c s \<noteq> []"
  by (induction s) (auto split: list.splits)

lemma join_split_on: "join c (split_on c s) = s"
proof (induction s)
  case Nil
  then show ?case by simp
next
  case (Cons x xs)
  show ?case
  proof (cases "split_on c xs")
    case Nil
    then show ?thesis using split_on_nonempty [of c xs] by simp
  next
    case (Cons l ls)
    then show ?thesis using Cons.IH by (cases ls) auto
  qed
qed

lemma split_on_free: "l \<in> set (split_on c s) \<Longrightarrow> c \<notin> set l"
  by (induction s arbitrary: l) (auto split: list.splits if_splits)

lemma split_on_line: "c \<notin> set l \<Longrightarrow> split_on c l = [l]"
  by (induction l) auto

lemma split_on_append: "c \<notin> set l \<Longrightarrow> split_on c (l @ c # rest) = l # split_on c rest"
  by (induction l) auto

lemma split_on_join:
  "ms \<noteq> [] \<Longrightarrow> \<forall>l \<in> set ms. c \<notin> set l \<Longrightarrow> split_on c (join c ms) = ms"
proof (induction c ms rule: join.induct)
  case (1 c)
  then show ?case by simp
next
  case (2 c l)
  then show ?case by (simp add: split_on_line)
next
  case (3 c l m ls)
  then show ?case by (simp add: split_on_append)
qed

lemma split_on_snoc: "split_on c (s @ [c]) = split_on c s @ [[]]"
  by (induction s) (auto split: list.splits simp: split_on_nonempty)

lemma join_Nil_iff: "join c ms = [] \<longleftrightarrow> (ms = [] \<or> ms = [[]])"
  by (induction c ms rule: join.induct) auto

lemma suffix_join:
  "ms \<noteq> [] \<Longrightarrow> \<forall>l \<in> set ms. c \<notin> set l
     \<Longrightarrow> suffix [c] (join c ms) \<longleftrightarrow> (2 \<le> length ms \<and> last ms = [])"
proof (induction c ms rule: join.induct)
  case (1 c)
  then show ?case by simp
next
  case (2 c l)
  then show ?case by (auto simp: suffix_def)
next
  case (3 c l m ls)
  have a: "suffix [c] (l @ c # join c (m # ls))
          \<longleftrightarrow> (join c (m # ls) = [] \<or> suffix [c] (join c (m # ls)))"
    by (cases "join c (m # ls)" rule: rev_cases) (auto simp: suffix_def)
  have b: "suffix [c] (join c (m # ls)) \<longleftrightarrow> (ls \<noteq> [] \<and> last ls = [])"
    using 3 by (cases ls) auto
  show ?case
    unfolding join.simps a b by (cases ls) (auto simp: join_Nil_iff)
qed

subsection \<open>Numerals\<close>

lemma digit_chars: "\<forall>k \<in> set [0..<10]. char_of (48 + k) \<in> set ''0123456789''"
  by code_simp

lemma digit_char: "k < 10 \<Longrightarrow> char_of (48 + k) \<in> set ''0123456789''" for k :: nat
proof -
  assume "k < 10"
  then have "k \<in> set [0..<10]" by simp
  with digit_chars show ?thesis by blast
qed

lemma decimal_digits: "set (decimal n) \<subseteq> set ''0123456789''"
proof (induction n rule: decimal.induct)
  case (1 n)
  show ?case
  proof (cases "n < 10")
    case True
    then show ?thesis using digit_char [of n] by (subst decimal.simps) simp
  next
    case False
    then show ?thesis using 1 digit_char [of "n mod 10"] by (subst decimal.simps) simp
  qed
qed

lemma decimal_nonempty: "decimal n \<noteq> []"
  by (subst decimal.simps) simp

lemma numberToString_free: "newline \<notin> set (numberToString x)"
  using decimal_digits by (cases x) (auto simp: numberToString_def newline_def)

lemma vertexLine_free: "newline \<notin> set (vertexLine x)"
  using numberToString_free [of x] by (auto simp: vertexLine_def newline_def)

subsection \<open>Header rewrite\<close>

lemma rewriteLine_empty: "rewriteLine n l = [] \<longleftrightarrow> l = []"
  by (auto simp: rewriteLine_def vertexLine_def includes_str_def)

lemma createChunkHeader_rewriteLine:
  "createChunkHeader st n
     = (let header = join newline (map (rewriteLine n) (split_on newline (originalHeader st)))
        in if suffix [newline] header then header else header @ [newline])"
proof -
  have "(\<lambda>line. if includes_str line ''element vertex'' then vertexLine n else line)
          = rewriteLine n"
    by (rule ext) (simp add: rewriteLine_def)
  then show ?thesis
    by (simp add: createChunkHeader_def Let_def endsWith_def)
qed

lemma createChunkHeader_lines:
  "split_on newline (createChunkHeader st n)
     = map (rewriteLine n) (split_on newline (originalHeader st))
       @ (if endsWith (originalHeader st) [newline] then [] else [[]])"
proof -
  define ls where "ls = split_on newline (originalHeader st)"
  define ms where "ms = map (rewriteLine n) ls"
  have ls: "ls \<noteq> []" "\<forall>l \<in> set ls. newline \<notin> set l"
    by (auto simp: ls_def split_on_nonempty dest: split_on_free)
  have ms: "ms \<noteq> []" "\<forall>l \<in> set ms. newline \<notin> set l"
    using ls vertexLine_free by (auto simp: ms_def rewriteLine_def)
  have h: "originalHeader st = join newline ls"
    by (simp add: ls_def join_split_on)
  have "last ms = [] \<longleftrightarrow> last ls = []"
    using ls(1) by (simp add: ms_def last_map rewriteLine_empty)
  then have e: "suffix [newline] (join newline ms) \<longleftrightarrow> suffix [newline] (originalHeader st)"
    using suffix_join [OF ms] suffix_join [OF ls] by (simp add: h ms_def)
  have c: "createChunkHeader st n
      = (if suffix [newline] (join newline ms) then join newline ms
         else join newline ms @ [newline])"
    by (simp add: createChunkHeader_rewriteLine Let_def ms_def ls_def)
  show ?thesis
    using e split_on_join [OF ms]
    by (simp add: c split_on_snoc endsWith_def ms_def ls_def)
qed

lemma createChunkHeader_ends: "endsWith (createChunkHeader st n) [newline]"
  by (simp add: createChunkHeader_def Let_def endsWith_def)

text \<open>
  C6, as the code has it: the rewrite replaces every line that contains the text
  \<open>element vertex\<close> by the whole line \<open>element vertex <n>\<close>; every other line is the same
  bytes at the same position, and the result ends with a newline (one empty last line more
  when the header did not). When the vertex line is \<open>element vertex\<close>, a space and a numeral,
  only the numeral changes.
\<close>

theorem createChunkHeader_rewrites_lines:
  fixes st n
  defines "ls \<equiv> split_on newline (originalHeader st)"
    and "rs \<equiv> split_on newline (createChunkHeader st n)"
  shows "length rs = length ls + (if endsWith (originalHeader st) [newline] then 0 else 1)
    \<and> (\<forall>i < length ls. rs ! i
          = (if includes_str (ls ! i) ''element vertex''
             then ''element vertex '' @ numberToString n else ls ! i))
    \<and> endsWith (createChunkHeader st n) [newline]"
  using createChunkHeader_ends [of st n]
  by (simp add: ls_def rs_def createChunkHeader_lines nth_append rewriteLine_def vertexLine_def)

theorem createChunkHeader_rewrites_lines_witness:
  "length (split_on newline
       (createChunkHeader (initial\<lparr>originalHeader := plainHeader\<rparr>) (Number 5))) = 5
   \<and> split_on newline
       (createChunkHeader (initial\<lparr>originalHeader := plainHeader\<rparr>) (Number 5)) ! 1
       = ''element vertex 5''
   \<and> split_on newline
       (createChunkHeader (initial\<lparr>originalHeader := plainHeader\<rparr>) (Number 5)) ! 2
       = ''property float x''
   \<and> endsWith (createChunkHeader (initial\<lparr>originalHeader := plainHeader\<rparr>) (Number 5)) [newline]"
proof -
  let ?st = "initial\<lparr>originalHeader := plainHeader\<rparr>"
  let ?rs = "split_on newline (createChunkHeader ?st (Number 5))"
  let ?ls = "[''ply'', ''element vertex 12'', ''property float x'', ''end_header'', []]"
  have ls: "split_on newline plainHeader = ?ls"
    by code_simp
  have e: "endsWith plainHeader [newline]"
    by code_simp
  have five: "numberToString (Number 5) = ''5''"
    by code_simp
  have inc1: "includes_str ''element vertex 12'' ''element vertex''"
    by code_simp
  have inc2: "\<not> includes_str ''property float x'' ''element vertex''"
    by code_simp
  have r: "length ?rs = 5"
    and q: "\<forall>i < 5. ?rs ! i
          = (if includes_str (?ls ! i) ''element vertex'' then ''element vertex 5'' else ?ls ! i)"
    and z: "endsWith (createChunkHeader ?st (Number 5)) [newline]"
    using createChunkHeader_rewrites_lines [of ?st "Number 5"] e by (simp_all add: ls five)
  have "?rs ! 1 = ''element vertex 5''"
    using q [rule_format, of 1] inc1 by simp
  moreover have "?rs ! 2 = ''property float x''"
    using q [rule_format, of 2] inc2 by simp
  ultimately show ?thesis using r z by simp
qed

text \<open>
  A header with a comment line that mentions \<open>element vertex\<close>: the rewrite replaces the
  comment line as well.
\<close>

theorem createChunkHeader_comment_counterexample:
  "split_on newline commentHeader ! 1 = ''comment element vertex count''
   \<and> split_on newline (createChunkHeader (initial\<lparr>originalHeader := commentHeader\<rparr>) (Number 7)) ! 1
       = ''element vertex 7''"
  by code_simp

subsection \<open>Header parsing\<close>

lemma scanLine_count:
  "fst (scanLine (vc, pts, ex) l)
     = (if includes_str (trim l) ''element vertex''
        then parseIntAt (split_on space (trim l)) 2 else vc)"
  by (simp add: scanLine_def Let_def includes_str_def)

lemma foldl_scanLine_count:
  "\<forall>l \<in> set ls. \<not> includes_str (trim l) ''element vertex''
     \<Longrightarrow> fst (foldl scanLine acc ls) = fst acc"
proof (induction ls arbitrary: acc)
  case Nil
  then show ?case by simp
next
  case (Cons l ls)
  obtain vc pts ex where acc: "acc = (vc, pts, ex)" by (cases acc) auto
  show ?case using Cons scanLine_count [of vc pts ex l] by (simp add: acc)
qed

lemma slice_take: "0 \<le> k \<Longrightarrow> slice s 0 (of_int k) = take (nat k) s"
  by (auto simp: slice_def adjustOffset_def Let_def min_def)

lemma sliceFrom_drop: "0 \<le> k \<Longrightarrow> sliceFrom s (of_int k) = drop (nat k) s"
  by (auto simp: sliceFrom_def adjustOffset_def Let_def min_def)

lemma headerEndIndexOf_cases:
  "headerEndIndexOf s = (case find_first terminator s of None \<Rightarrow> 10 | Some i \<Rightarrow> int i + 11)"
  by (simp add: headerEndIndexOf_def indexOf_def terminator_def split: option.splits)

text \<open>
  C7, as the code has it: \<open>readPlyHeader\<close> raises nothing. Take an input whose bytes
  up to the cut are ASCII, so that they are the characters of the decoded text. Without a
  terminator the search gives \<open>-1\<close>, the header is the first 10 bytes and the payload
  the rest; without a line that contains \<open>element vertex\<close> the vertex count keeps the
  value it had before the call.
\<close>

theorem readPlyHeader_returns:
  assumes "readPlyHeader st data = (st', p)"
    and "isAscii (originalHeader st')"
  shows "(find_first terminator data = None \<longrightarrow>
            headerEndIndex p = 10 \<and> originalHeader st' = take 10 data
            \<and> vertexData p = drop 10 data)
    \<and> ((\<forall>l \<in> set (split_on newline (originalHeader st')).
            \<not> includes_str (trim l) ''element vertex'')
         \<longrightarrow> vertexCount st' = vertexCount st)"
proof -
  define hei where "hei = headerEndIndexOf data"
  define hdr where "hdr = slice data 0 (of_int hei)"
  obtain vc pts ex where sc: "scanHeader st hdr = (vc, pts, ex)"
    by (cases "scanHeader st hdr") auto
  have st': "originalHeader st' = hdr" "vertexCount st' = vc"
    and p: "headerEndIndex p = hei" "vertexData p = sliceFrom data (of_int hei)"
    using assms(1) sc by (auto simp: readPlyHeader_def Let_def hdr_def hei_def)
  have "hei = 10" if "find_first terminator data = None"
    using that by (simp add: hei_def headerEndIndexOf_cases)
  then have 1: "find_first terminator data = None \<longrightarrow>
            headerEndIndex p = 10 \<and> originalHeader st' = take 10 data
            \<and> vertexData p = drop 10 data"
    using slice_take [where s = data and k = 10] sliceFrom_drop [where s = data and k = 10]
    by (simp add: st' p hdr_def)
  have 2: "vc = vertexCount st"
    if "\<forall>l \<in> set (split_on newline hdr). \<not> includes_str (trim l) ''element vertex''"
    using foldl_scanLine_count [OF that, of "(vertexCount st, propertyTypes st, [])"] sc
    by (simp add: scanHeader_def)
  show ?thesis using 1 2 by (simp add: st')
qed

theorem readPlyHeader_returns_witness:
  "find_first terminator noTerminator = None
   \<and> isAscii (take 10 noTerminator)
   \<and> headerEndIndex (snd (readPlyHeader initial noTerminator)) = 10
   \<and> originalHeader (fst (readPlyHeader initial noTerminator)) = take 10 noTerminator
   \<and> vertexData (snd (readPlyHeader initial noTerminator)) = drop 10 noTerminator
   \<and> find_first terminator noVertexLine = Some 21
   \<and> vertexCount (fst (readPlyHeader (initial\<lparr>vertexCount := Number 7\<rparr>) noVertexLine)) = Number 7"
proof -
  have c: "find_first terminator noVertexLine = Some 21"
    by code_simp
  have a: "find_first terminator noTerminator = None"
    by code_simp
  have b: "\<forall>l \<in> set (split_on newline
          (originalHeader (fst (readPlyHeader (initial\<lparr>vertexCount := Number 7\<rparr>) noVertexLine)))).
          \<not> includes_str (trim l) ''element vertex''"
    by code_simp
  have d: "isAscii (originalHeader (fst (readPlyHeader initial noTerminator)))"
    by code_simp
  have e: "isAscii (originalHeader
        (fst (readPlyHeader (initial\<lparr>vertexCount := Number 7\<rparr>) noVertexLine)))"
    by code_simp
  have f: "isAscii (take 10 noTerminator)"
    by code_simp
  show ?thesis
    using a b c f
      readPlyHeader_returns [of initial noTerminator
        "fst (readPlyHeader initial noTerminator)" "snd (readPlyHeader initial noTerminator)",
        OF _ d]
      readPlyHeader_returns [of "initial\<lparr>vertexCount := Number 7\<rparr>" noVertexLine
        "fst (readPlyHeader (initial\<lparr>vertexCount := Number 7\<rparr>) noVertexLine)"
        "snd (readPlyHeader (initial\<lparr>vertexCount := Number 7\<rparr>) noVertexLine)",
        OF _ e]
    by simp
qed

text \<open>
  Bytes with neither a terminator nor a vertex-count line: the call returns a header of
  10 bytes, the vertex count 0 and the remaining bytes as the payload.
\<close>

theorem readPlyHeader_counterexample:
  "find_first terminator notPly = None
   \<and> readPlyHeader initial notPly
       = (\<lparr>originalHeader = ''some bytes'', vertexCount = Number 0, propertyTypes = [],
           maxShDegree = 0\<rparr>,
          \<lparr>headerEndIndex = 10, vertexData = '' that are not a point cloud''\<rparr>)"
  by code_simp

section \<open>Properties of grouping\<close>

lemma groupsLoop_done:
  "len \<le> i \<Longrightarrow> groupsLoop st fs len eff i acc = Some acc"
  by (subst groupsLoop.simps) simp

lemma groupsLoop_runs:
  assumes "0 < eff"
  shows "groupsLoop st fs len eff i acc
     = Some (acc @ map (\<lambda>j. groupAt st fs len eff (i + int j * eff))
                      [0..<nat ((len - i + eff - 1) div eff)])"
proof (induction "nat (len - i)" arbitrary: i acc rule: less_induct)
  case less
  show ?case
  proof (cases "i < len")
    case False
    then have "(len - i + eff - 1) div eff \<le> (eff - 1) div eff"
      by (intro zdiv_mono1) (use assms in auto)
    then have "(len - i + eff - 1) div eff \<le> 0"
      using assms by simp
    then show ?thesis using False by (simp add: groupsLoop_done)
  next
    case True
    let ?m = "nat ((len - (i + eff) + eff - 1) div eff)"
    have e1: "len - (i + eff) + eff - 1 = len - i - 1"
      by simp
    have e2: "len - i + eff - 1 = (len - i - 1) + eff"
      by simp
    have "(len - i + eff - 1) div eff = (len - i - 1) div eff + 1"
      unfolding e2 by (rule div_add_self2) (use assms in simp)
    then have "(len - i + eff - 1) div eff = (len - (i + eff) + eff - 1) div eff + 1"
      by (simp only: e1)
    moreover have "0 \<le> (len - (i + eff) + eff - 1) div eff"
      using True assms by (simp add: pos_imp_zdiv_nonneg_iff)
    ultimately have m: "nat ((len - i + eff - 1) div eff) = Suc ?m"
      by simp
    have "nat (len - (i + eff)) < nat (len - i)"
      using True assms by simp
    from less [OF this]
    have "groupsLoop st fs len eff (i + eff) (acc @ [groupAt st fs len eff i])
        = Some ((acc @ [groupAt st fs len eff i])
                 @ map (\<lambda>j. groupAt st fs len eff (i + eff + int j * eff)) [0..<?m])" .
    moreover have "map (\<lambda>j. groupAt st fs len eff (i + int j * eff)) [0..<Suc ?m]
        = groupAt st fs len eff i
          # map (\<lambda>j. groupAt st fs len eff (i + eff + int j * eff)) [0..<?m]"
      by (simp add: upt_conv_Cons map_Suc_upt [symmetric] algebra_simps del: upt_Suc)
    ultimately show ?thesis
      using True by (subst groupsLoop.simps) (simp add: m del: upt_Suc)
  qed
qed

lemma groupAt_indices:
  assumes "0 < e"
  shows "groupIndices (groupAt st fs (int n) (int e) (int (k * e)))
     = [k * e ..< min ((k + 1) * e) n]"
proof -
  define a where "a = k * e"
  have len: "nat (min (int e) (int n - int a)) = min (a + e) n - a"
    by (simp add: min_def) arith
  have "(\<lambda>idx. nat (int a + int idx)) = (\<lambda>idx. idx + a)"
    by (rule ext) (simp only: of_nat_add [symmetric] nat_int add.commute)
  then have "map (\<lambda>idx. nat (int a + int idx)) [0..<c] = [a ..< c + a]" for c
    by (simp only: map_add_upt)
  then have "groupIndices (groupAt st fs (int n) (int e) (int a)) = [a ..< min (a + e) n]"
    using len by (cases "a \<le> n") (auto simp: groupAt_def Let_def min_def add.commute)
  then show ?thesis
    by (simp add: a_def algebra_simps)
qed

lemma upt_glue: "a \<le> b \<Longrightarrow> [0..<a] @ [a..<b] = [0..<b]" for a b :: nat
  using upt_add_eq_append [of 0 a "b - a"] by simp

lemma concat_runs:
  assumes "0 < e"
  shows "concat (map (\<lambda>k. [k * e ..< min ((k + 1) * e) n]) [0..<j]) = [0..<min (j * e) n]"
proof (induction j)
  case 0
  then show ?case by simp
next
  case (Suc j)
  have "[0..<min (j * e) n] @ [j * e ..< min ((j + 1) * e) n] = [0..<min ((j + 1) * e) n]"
  proof (cases "j * e \<le> n")
    case True
    then have "j * e \<le> min ((j + 1) * e) n" by simp
    from upt_glue [OF this] show ?thesis using True by (simp add: min_def)
  next
    case False
    then show ?thesis by (simp add: min_def)
  qed
  then show ?case using Suc by simp
qed

lemma ceil_div_covers:
  fixes n e :: nat
  assumes "0 < e"
  shows "n \<le> (n + e - 1) div e * e"
proof -
  have "(n + e - 1) div e * e + (n + e - 1) mod e = n + e - 1"
    by (rule div_mult_mod_eq)
  moreover have "(n + e - 1) mod e < e"
    using assms by simp
  ultimately show ?thesis by arith
qed

text \<open>
  C4, as the code has it: with header information at hand, for every number \<open>n\<close> of chunk
  files and every group size that is \<open>-1\<close> or at least 1, the grouping loop returns, and
  its groups are the consecutive runs \<open>[k * e, min ((k + 1) * e) n)\<close> of the indices below
  \<open>n\<close>, where \<open>e\<close> is \<open>n\<close> for the group size \<open>-1\<close> and the group size otherwise. Put
  one after the other the runs are \<open>0, 1, ..., n - 1\<close>, so every index is in exactly one
  group. The group size \<open>-1\<close> gives the single group of all indices when there is at
  least one chunk, and no group at all when there is none.
\<close>

theorem createGroups_partition:
  fixes n :: nat and groupSize :: int
  assumes "originalHeader st \<noteq> [] \<or> saved \<noteq> None"
    and "groupSize = - 1 \<or> 1 \<le> groupSize"
  defines "e \<equiv> (if groupSize = - 1 then n else nat groupSize)"
  shows "\<exists>gs. createGroups st saved fs n groupSize = Some (Inr gs)
     \<and> map groupIndices gs = map (\<lambda>k. [k * e ..< min ((k + 1) * e) n]) [0 ..< (n + e - 1) div e]
     \<and> concat (map groupIndices gs) = [0..<n]
     \<and> (groupSize = - 1 \<longrightarrow> map groupIndices gs = (if n = 0 then [] else [[0..<n]]))"
proof -
  define eff where "eff = (if groupSize = - 1 then int n else groupSize)"
  have eff: "eff = int e"
    using assms(2) by (auto simp: eff_def e_def)
  define st1 where "st1 = (if originalHeader st = [] then the saved else st)"
  have cg: "createGroups st saved fs n groupSize
      = map_option Inr (groupsLoop st1 fs (int n) eff 0 [])"
    using assms(1) by (auto simp: createGroups_def Let_def eff_def st1_def)
  show ?thesis
  proof (cases "e = 0")
    case True
    then have n: "n = 0" using assms(2) by (auto simp: e_def split: if_splits)
    have "groupsLoop st1 fs (int n) eff 0 [] = Some []"
      by (rule groupsLoop_done) (simp add: n)
    then show ?thesis
      unfolding cg using True n by simp
  next
    case False
    then have e: "0 < e" by simp
    let ?m = "(n + e - 1) div e"
    define gs where "gs = map (\<lambda>j. groupAt st1 fs (int n) eff (int (j * e))) [0..<?m]"
    have "int n - 0 + eff - 1 = int (n + e - 1)"
      using e by (simp add: eff of_nat_diff)
    then have "nat ((int n - 0 + eff - 1) div eff) = ?m"
      by (simp only: eff zdiv_int [symmetric] nat_int)
    then have loop: "groupsLoop st1 fs (int n) eff 0 [] = Some gs"
      using groupsLoop_runs [of eff st1 fs "int n" 0 "[]"] e by (simp add: eff gs_def)
    have idx: "map groupIndices gs = map (\<lambda>k. [k * e ..< min ((k + 1) * e) n]) [0..<?m]"
      using groupAt_indices [OF e, of st1 fs n] by (simp add: gs_def eff)
    have cc: "concat (map groupIndices gs) = [0..<n]"
      using concat_runs [OF e, of n ?m] ceil_div_covers [OF e, of n] by (simp add: idx min_def)
    have one: "map groupIndices gs = [[0..<n]]" if "groupSize = - 1"
    proof -
      from that have en: "e = n" by (simp add: e_def)
      have "(n + n - 1) div n = 1"
        using e en by (intro div_nat_eqI) auto
      then show ?thesis by (simp add: idx en)
    qed
    have nz: "n \<noteq> 0" if "groupSize = - 1"
      using that e by (simp add: e_def)
    show ?thesis
    proof (intro exI [of _ gs] conjI impI)
      show "createGroups st saved fs n groupSize = Some (Inr gs)"
        by (simp add: cg loop)
      show "map groupIndices gs
          = map (\<lambda>k. [k * e ..< min ((k + 1) * e) n]) [0 ..< (n + e - 1) div e]"
        by (rule idx)
      show "concat (map groupIndices gs) = [0..<n]"
        by (rule cc)
      show "map groupIndices gs = (if n = 0 then [] else [[0..<n]])" if "groupSize = - 1"
        using one [OF that] nz [OF that] by simp
    qed
  qed
qed

theorem createGroups_partition_witness:
  "\<exists>gs. createGroups (initial\<lparr>originalHeader := plainHeader\<rparr>) None twoChunks 5 2 = Some (Inr gs)
     \<and> map groupIndices gs = [[0, 1], [2, 3], [4]]
     \<and> concat (map groupIndices gs) = [0, 1, 2, 3, 4]"
proof -
  let ?e = "if (2 :: int) = - 1 then (5 :: nat) else nat 2"
  have a: "originalHeader (initial\<lparr>originalHeader := plainHeader\<rparr>) \<noteq> [] \<or> None \<noteq> None"
    by (simp add: plainHeader_def)
  have b: "(2 :: int) = - 1 \<or> 1 \<le> (2 :: int)"
    by simp
  have c: "map (\<lambda>k. [k * ?e ..< min ((k + 1) * ?e) 5]) [0 ..< (5 + ?e - 1) div ?e]
      = [[0, 1], [2, 3], [4 :: nat]]"
    by code_simp
  have d: "[0..<5] = [0, 1, 2, 3, 4 :: nat]"
    by code_simp
  from createGroups_partition [OF a b, of twoChunks 5]
  obtain gs where
    g1: "createGroups (initial\<lparr>originalHeader := plainHeader\<rparr>) None twoChunks 5 2 = Some (Inr gs)"
    and g2: "map groupIndices gs
      = map (\<lambda>k. [k * ?e ..< min ((k + 1) * ?e) 5]) [0 ..< (5 + ?e - 1) div ?e]"
    and g3: "concat (map groupIndices gs) = [0..<5]"
    by blast
  show ?thesis
  proof (intro exI [of _ gs] conjI)
    show "createGroups (initial\<lparr>originalHeader := plainHeader\<rparr>) None twoChunks 5 2
        = Some (Inr gs)"
      by (rule g1)
    show "map groupIndices gs = [[0, 1], [2, 3], [4]]"
      using g2 by (simp only: c)
    show "concat (map groupIndices gs) = [0, 1, 2, 3, 4]"
      using g3 by (simp only: d)
  qed
qed

text \<open>
  No chunk file and the group size \<open>-1\<close>: the loop does not run, and there is no group,
  where the claim has a single group containing every chunk.
\<close>

theorem createGroups_empty_counterexample:
  "createGroups (initial\<lparr>originalHeader := plainHeader\<rparr>) None noChunks 0 (- 1) = Some (Inr [])"
  by code_simp

section \<open>Properties of the verification pass and of the merge\<close>

lemma matchVertex_digits:
  "matchVertex s = Some d \<Longrightarrow> d \<noteq> [] \<and> (\<forall>c \<in> set d. isDigit c)"
  by (induction s) (auto split: if_splits dest: set_takeWhileD)

lemma isDigit_cases:
  "isDigit c \<Longrightarrow>
     \<not> isWhiteSpace c \<and> c \<noteq> CHR ''-'' \<and> c \<noteq> CHR ''+'' \<and> c \<noteq> CHR ''x'' \<and> c \<noteq> CHR ''X''"
  by (auto simp: isDigit_def isWhiteSpace_def)

lemma parseInt_digits:
  assumes "d \<noteq> []" and "\<forall>c \<in> set d. isDigit c"
  shows "parseInt d = Number (int (radixValue 10 d))"
proof -
  obtain c cs where d: "d = c # cs" using assms(1) by (cases d) auto
  have c: "isDigit c" using assms(2) d by simp
  have s1: "dropWhile isWhiteSpace d = d"
    using isDigit_cases [OF c] by (simp add: d)
  have sign: "\<not> startsWith d ''-''" "\<not> startsWith d ''+''"
    using isDigit_cases [OF c] by (auto simp: d startsWith_def)
  have hex: "\<not> startsWith d ''0x''" "\<not> startsWith d ''0X''"
    using assms(2) isDigit_cases by (cases cs; auto simp: d startsWith_def)+
  have z: "takeWhile (isRadixDigit 10) d = d"
    using assms(2) by (simp add: isRadixDigit_def takeWhile_eq_all_conv)
  show ?thesis
    using assms(1) by (simp add: parseInt_def Let_def s1 sign hex z)
qed

lemma verifyStep_eq:
  "verifyStep fs (Number v, fl) i = (Number (v + readableCount (fs i)), fl @ failureOf fs i)"
  using matchVertex_digits parseInt_digits
  by (auto simp: verifyStep_def readableCount_def declaredCount_def failureOf_def addNumber_def
           split: option.splits)

lemma verifyPass_foldl:
  "foldl (verifyStep fs) (Number v, fl) xs
     = (Number (v + sum_list (map (\<lambda>i. readableCount (fs i)) xs)),
        fl @ concat (map (failureOf fs) xs))"
  by (induction xs arbitrary: v fl) (simp_all add: verifyStep_eq add.assoc)




lemma mergeLoop_eq:
  assumes "map fs idxs = map Some cs"
  shows "mergeLoop fs idxs (Number v, m)
     = Inr (Number (v + sum_list (map declaredCount cs)),
            m @ concat (map (\<lambda>c. vertexData (readChunkPly c)) cs))"
  using assms
proof (induction idxs arbitrary: cs v m)
  case Nil
  then show ?case by simp
next
  case (Cons i idxs)
  then obtain c cs' where cs: "cs = c # cs'" "fs i = Some c" "map fs idxs = map Some cs'"
    by (cases cs) auto
  have "(case matchVertex c of None \<Rightarrow> Number v | Some d \<Rightarrow> addNumber (Number v) (parseInt d))
      = Number (v + declaredCount c)"
    using matchVertex_digits parseInt_digits
    by (auto simp: declaredCount_def addNumber_def split: option.splits)
  then show ?case
    using Cons.IH [OF cs(3)] cs by (simp add: add.assoc)
qed

lemma find_first_Cons:
  "find_first sub cs \<noteq> None \<Longrightarrow> find_first sub (c # cs) \<noteq> None"
  by (cases "prefix sub (c # cs)") (simp_all only: find_first.simps if_True if_False, auto)

lemma matchVertex_includes:
  "matchVertex s = Some d \<Longrightarrow> includes_str s ''element vertex''"
proof (induction s)
  case Nil
  then show ?case by simp
next
  case (Cons c cs)
  show ?case
  proof (cases "prefix ''element vertex '' (c # cs)")
    case True
    have "prefix ''element vertex'' ''element vertex ''"
      by simp
    then have "prefix ''element vertex'' (c # cs)"
      using True by (rule prefix_order.trans)
    then have "find_first ''element vertex'' (c # cs) = Some 0"
      by (simp only: find_first.simps if_True)
    then show ?thesis by (simp only: includes_str_def) simp
  next
    case False
    then have m: "matchVertex cs = Some d"
      using Cons.prems by (simp only: matchVertex.simps) simp
    have "find_first ''element vertex'' cs \<noteq> None"
      using Cons.IH [OF m] unfolding includes_str_def .
    then show ?thesis
      unfolding includes_str_def by (rule find_first_Cons)
  qed
qed





section \<open>Properties of double-precision rounding\<close>

lemma bitlen_powi:
  assumes "0 < p"
  shows "(2 :: rat) powi (bitlen p - 1) \<le> of_int p" and "of_int p < (2 :: rat) powi bitlen p"
proof -
  have b: "1 \<le> bitlen p"
    using assms by (simp add: bitlen_alt_def)
  have "(2 :: int) ^ nat (bitlen p - 1) \<le> p" and "p < 2 ^ nat (bitlen p)"
    using bitlen_bounds [OF assms] by simp_all
  then have "(of_int ((2 :: int) ^ nat (bitlen p - 1)) :: rat) \<le> of_int p"
    and "(of_int p :: rat) < of_int (2 ^ nat (bitlen p))"
    by (simp_all only: of_int_le_iff of_int_less_iff)
  then show "(2 :: rat) powi (bitlen p - 1) \<le> of_int p" and "of_int p < (2 :: rat) powi bitlen p"
    using b by (simp_all add: power_int_nonneg_exp)
qed

lemma fexp_bounds:
  assumes "x \<noteq> 0"
  shows "2 powi fexp x \<le> \<bar>x\<bar>" and "\<bar>x\<bar> < 2 powi (fexp x + 1)"
proof -
  obtain p q where pq: "quotient_of \<bar>x\<bar> = (p, q)"
    by (cases "quotient_of \<bar>x\<bar>") auto
  have q: "0 < q" using pq by (rule quotient_of_denom_pos)
  have x: "\<bar>x\<bar> = of_int p / of_int q" using pq by (rule quotient_of_div)
  have "0 < \<bar>x\<bar>" using assms by simp
  then have p: "0 < p"
    using q by (simp add: x zero_less_divide_iff)
  define e where "e = bitlen p - bitlen q"
  have qpos: "(0 :: rat) < of_int q" using q by simp
  have up: "\<bar>x\<bar> < 2 powi (e + 1)"
  proof -
    have "of_int p < (2 :: rat) powi bitlen p" by (rule bitlen_powi [OF p])
    also have "\<dots> = 2 powi (e + 1) * 2 powi (bitlen q - 1)"
      by (simp add: e_def power_int_add [symmetric])
    also have "\<dots> \<le> 2 powi (e + 1) * of_int q"
      using bitlen_powi(1) [OF q] by (intro mult_left_mono) simp_all
    finally show ?thesis
      using qpos by (simp add: x pos_divide_less_eq)
  qed
  have lo: "2 powi (e - 1) \<le> \<bar>x\<bar>"
  proof -
    have "2 powi (e - 1) * of_int q \<le> 2 powi (e - 1) * (2 :: rat) powi bitlen q"
      using bitlen_powi(2) [OF q] by (intro mult_left_mono) simp_all
    also have "\<dots> = 2 powi (bitlen p - 1)"
      by (simp add: e_def power_int_add [symmetric])
    also have "\<dots> \<le> of_int p" by (rule bitlen_powi [OF p])
    finally show ?thesis
      using qpos by (simp add: x pos_le_divide_eq)
  qed
  have f: "fexp x = (if 2 powi e \<le> \<bar>x\<bar> then e else e - 1)"
    by (simp add: fexp_def pq e_def Let_def)
  show "2 powi fexp x \<le> \<bar>x\<bar>" using lo by (simp add: f)
  show "\<bar>x\<bar> < 2 powi (fexp x + 1)" using up by (simp add: f)
qed

lemma roundHalfEven_near: "\<bar>of_int (roundHalfEven y) - y\<bar> \<le> 1 / 2"
proof -
  have "of_int \<lfloor>y\<rfloor> \<le> y" "y < of_int \<lfloor>y\<rfloor> + 1" by linarith+
  then show ?thesis
    by (auto simp: roundHalfEven_def Let_def abs_le_iff)
qed

lemma roundHalfEven_int [simp]: "roundHalfEven (of_int k) = k"
  by (simp add: roundHalfEven_def)

lemma roundHalfEven_ge: "of_int k \<le> y \<Longrightarrow> k \<le> roundHalfEven y"
proof -
  assume "of_int k \<le> y"
  then have "k \<le> \<lfloor>y\<rfloor>" by (simp add: le_floor_iff)
  then show ?thesis by (auto simp: roundHalfEven_def Let_def)
qed

lemma roundHalfEven_le: "y \<le> of_int k \<Longrightarrow> roundHalfEven y \<le> k"
proof -
  assume a: "y \<le> of_int k"
  show ?thesis
  proof (cases "y = of_int k")
    case True
    then show ?thesis by simp
  next
    case False
    with a have "y < of_int k" by simp
    then have "\<lfloor>y\<rfloor> < k" by (simp add: floor_less_iff)
    then show ?thesis by (auto simp: roundHalfEven_def Let_def)
  qed
qed

lemma rnd_error:
  assumes "x \<noteq> 0"
  shows "\<bar>rnd x - x\<bar> \<le> \<bar>x\<bar> / 2 ^ 53"
proof -
  define s :: rat where "s = 2 powi (fexp x - 52)"
  have s: "0 < s" by (simp add: s_def)
  have r: "rnd x = of_int (roundHalfEven (x / s)) * s"
    using assms by (simp add: rnd_def s_def Let_def)
  have "\<bar>rnd x - x\<bar> = \<bar>of_int (roundHalfEven (x / s)) - x / s\<bar> * s"
    using s by (simp add: r abs_mult [symmetric] left_diff_distrib abs_mult_pos)
  also have "\<dots> \<le> 1 / 2 * s"
    using s roundHalfEven_near [of "x / s"] by (intro mult_right_mono) simp_all
  also have "\<dots> = 2 powi fexp x / 2 ^ 53"
    by (simp add: s_def power_int_diff)
  also have "\<dots> \<le> \<bar>x\<bar> / 2 ^ 53"
    using fexp_bounds(1) [OF assms] by (intro divide_right_mono) simp_all
  finally show ?thesis .
qed

lemma rnd_pos_bounds:
  assumes "0 < x"
  shows "x * (1 - 1 / 2 ^ 53) \<le> rnd x" and "rnd x \<le> x * (1 + 1 / 2 ^ 53)"
proof -
  have h: "\<bar>rnd x - x\<bar> \<le> x / 2 ^ 53"
    using rnd_error [of x] assms by simp
  have e: "x * (1 - 1 / 2 ^ 53) = x - x / 2 ^ 53" "x * (1 + 1 / 2 ^ 53) = x + x / 2 ^ 53"
    by (simp_all add: algebra_simps)
  show "x * (1 - 1 / 2 ^ 53) \<le> rnd x"
    unfolding e using h by linarith
  show "rnd x \<le> x * (1 + 1 / 2 ^ 53)"
    unfolding e using h by linarith
qed

lemma powi_small:
  assumes "e \<le> 52"
  shows "(2 :: rat) powi (e - 52) = 1 / 2 ^ nat (52 - e)"
proof -
  have "(2 :: rat) powi (e - 52) = 2 powi (- (52 - e))" by simp
  also have "\<dots> = 1 / 2 powi (52 - e)" by (rule power_int_minus_divide)
  also have "\<dots> = 1 / 2 ^ nat (52 - e)" using assms by (simp add: power_int_nonneg_exp)
  finally show ?thesis .
qed

lemma rnd_pos: "0 < x \<Longrightarrow> 0 < rnd x"
proof -
  assume x: "0 < x"
  then have "0 < x * (1 - 1 / 2 ^ 53)" by simp
  then show ?thesis using rnd_pos_bounds(1) [OF x] by linarith
qed

lemma rnd_nonpos: "x \<le> 0 \<Longrightarrow> rnd x \<le> 0"
proof -
  assume x: "x \<le> 0"
  define s :: rat where "s = 2 powi (fexp x - 52)"
  have s: "0 < s" by (simp add: s_def)
  have "x / s \<le> of_int 0" using x s by (simp add: divide_le_0_iff)
  then have "roundHalfEven (x / s) \<le> 0" by (rule roundHalfEven_le)
  then have "of_int (roundHalfEven (x / s)) * s \<le> 0"
    using s by (simp add: mult_le_0_iff)
  then show ?thesis by (simp add: rnd_def s_def Let_def)
qed

lemma rnd_ge_int:
  assumes "0 < n" and "n < 2 ^ 53" and "of_int n \<le> y"
  shows "of_int n \<le> rnd y"
proof -
  have y: "0 < y" using assms by (simp add: less_le_trans [of 0 "of_int n" y])
  define s :: rat where "s = 2 powi (fexp y - 52)"
  have s: "0 < s" by (simp add: s_def)
  have r: "rnd y = of_int (roundHalfEven (y / s)) * s"
    using y by (simp add: rnd_def s_def Let_def)
  show ?thesis
  proof (cases "fexp y \<le> 52")
    case True
    define k where "k = n * 2 ^ nat (52 - fexp y)"
    have "s = 1 / 2 ^ nat (52 - fexp y)"
      unfolding s_def using True by (rule powi_small)
    then have ks: "of_int k * s = of_int n"
      by (simp add: k_def)
    then have "of_int k = of_int n / s" using s by (simp add: field_simps)
    also have "\<dots> \<le> y / s" using assms(3) s by (simp add: divide_right_mono)
    finally have "k \<le> roundHalfEven (y / s)" by (rule roundHalfEven_ge)
    then have "of_int k * s \<le> of_int (roundHalfEven (y / s)) * s"
      using s by (simp add: mult_right_mono)
    then show ?thesis by (simp add: r ks)
  next
    case False
    then have e: "53 \<le> fexp y" by simp
    have "(2 :: rat) ^ 52 * s = 2 powi fexp y"
      using power_int_add [of "2 :: rat" 52 "fexp y - 52"] by (simp add: s_def)
    moreover have "2 powi fexp y \<le> y"
      using fexp_bounds(1) [of y] y by simp
    ultimately have "of_int (2 ^ 52) \<le> y / s"
      using s by (simp add: pos_le_divide_eq)
    then have "2 ^ 52 \<le> roundHalfEven (y / s)" by (rule roundHalfEven_ge)
    then have "(of_int (2 ^ 52) :: rat) \<le> of_int (roundHalfEven (y / s))"
      by (simp only: of_int_le_iff)
    then have "(of_int (2 ^ 52) :: rat) * s \<le> of_int (roundHalfEven (y / s)) * s"
      using s by (intro mult_right_mono) simp_all
    then have "2 powi fexp y \<le> rnd y"
      using \<open>(2 :: rat) ^ 52 * s = 2 powi fexp y\<close> by (simp add: r)
    moreover have "(2 :: rat) powi 53 \<le> 2 powi fexp y"
      using e by (intro power_int_increasing) simp_all
    moreover have "(of_int n :: rat) < 2 ^ 53"
      using assms(2) by (metis of_int_less_iff of_int_numeral of_int_power)
    ultimately show ?thesis by simp
  qed
qed

lemma rnd_int:
  assumes "\<bar>n\<bar> < 2 ^ 53"
  shows "rnd (of_int n) = of_int n"
proof (cases "n = 0")
  case True
  then show ?thesis by (simp add: rnd_def)
next
  case False
  define x :: rat where "x = of_int n"
  have x: "x \<noteq> 0" using False by (simp add: x_def)
  define s :: rat where "s = 2 powi (fexp x - 52)"
  have "\<bar>x\<bar> < 2 ^ 53"
    using assms by (metis x_def of_int_abs of_int_less_iff of_int_numeral of_int_power)
  then have lt: "(2 :: rat) powi fexp x < 2 powi 53"
    using fexp_bounds(1) [OF x] by simp
  have e: "fexp x \<le> 52"
  proof (rule ccontr)
    assume "\<not> fexp x \<le> 52"
    then have "53 \<le> fexp x" by simp
    then have "(2 :: rat) powi 53 \<le> 2 powi fexp x"
      by (intro power_int_increasing) simp_all
    with lt show False by simp
  qed
  define k where "k = n * 2 ^ nat (52 - fexp x)"
  have "s = 1 / 2 ^ nat (52 - fexp x)"
    unfolding s_def using e by (rule powi_small)
  then have ks: "x / s = of_int k"
    by (simp add: k_def x_def)
  have s: "s \<noteq> 0" by (simp add: s_def)
  have "rnd x = of_int (roundHalfEven (x / s)) * s"
    using x by (simp add: rnd_def s_def Let_def)
  also have "\<dots> = of_int k * s"
    by (simp only: ks roundHalfEven_int)
  also have "\<dots> = x"
    using s by (simp add: ks [symmetric])
  finally show ?thesis by (simp add: x_def)
qed

section \<open>Properties of chunk sizing\<close>

lemma getTypeSize_width:
  "t \<notin> set objectPrototypeKeys \<Longrightarrow> getTypeSize t = Width (widthOf t) \<and> 1 \<le> widthOf t"
  by (auto simp: widthOf_def getTypeSize_def typeSizes_def split: option.splits if_splits)

lemma bytesPerVertex_foldl:
  assumes "\<forall>t \<in> set ts. t \<notin> set objectPrototypeKeys"
  shows "foldl (\<lambda>sum t. case sum of
                       None \<Rightarrow> None
                     | Some s \<Rightarrow> (case getTypeSize t of Width w \<Rightarrow> Some (s + w) | Inherited \<Rightarrow> None))
       (Some a) ts = Some (a + sum_list (map widthOf ts))"
  using assms
proof (induction ts arbitrary: a)
  case Nil
  then show ?case by simp
next
  case (Cons t ts)
  then show ?case using getTypeSize_width [of t] by (simp add: add.assoc)
qed

lemma bytesPerVertex_sum:
  assumes "\<forall>t \<in> snd ` set (propertyTypes st). t \<notin> set objectPrototypeKeys"
  shows "bytesPerVertex st = Some (sum_list (map widthOf (map snd (propertyTypes st))))"
  using bytesPerVertex_foldl [of "map snd (propertyTypes st)" 0] assms
  by (simp add: bytesPerVertex_def)

lemma sum_widths_pos:
  assumes "\<forall>t \<in> set ts. t \<notin> set objectPrototypeKeys" and "ts \<noteq> []"
  shows "0 < sum_list (map widthOf ts)"
proof -
  obtain t ts' where "ts = t # ts'" using assms(2) by (cases ts) auto
  then show ?thesis using getTypeSize_width [of t] assms(1) by simp
qed

lemma rate_value: "rnd (1 - EXPECTED_COMPRESSION_RATE) = 1 / 10 * (1 - 2 / 2 ^ 53)"
proof -
  have "rnd (1 - EXPECTED_COMPRESSION_RATE) = 900719925474099 / 9007199254740992"
    by code_simp
  then show ?thesis by simp
qed

lemma overhead_value: "BASE64_OVERHEAD = 5 / 4"
  by code_simp

lemma divisor_bounds:
  assumes "0 < b"
  shows "of_nat b / 8 * ((1 - 2 / 2 ^ 53) * (1 - 1 / 2 ^ 53) * (1 - 1 / 2 ^ 53)) \<le> divisor b"
    and "divisor b \<le> of_nat b / 8 * ((1 - 2 / 2 ^ 53) * (1 + 1 / 2 ^ 53) * (1 + 1 / 2 ^ 53))"
proof -
  define B :: rat where "B = of_nat b"
  define P where "P = B * (1 / 10 * (1 - 2 / 2 ^ 53))"
  define x1 where "x1 = rnd P"
  define Q where "Q = x1 * (5 / 4)"
  have B: "0 < B" using assms by (simp add: B_def)
  have P: "0 < P" using B by (simp add: P_def)
  have x1: "P * (1 - 1 / 2 ^ 53) \<le> x1" "x1 \<le> P * (1 + 1 / 2 ^ 53)" "0 < x1"
    using rnd_pos_bounds [OF P] rnd_pos [OF P] by (simp_all add: x1_def)
  have Q: "0 < Q" using x1(3) by (simp add: Q_def)
  have d: "divisor b = rnd Q"
    by (simp add: divisor_def rate_value overhead_value Q_def x1_def P_def B_def)
  have "P * (1 - 1 / 2 ^ 53) * (5 / 4) * (1 - 1 / 2 ^ 53) \<le> Q * (1 - 1 / 2 ^ 53)"
    unfolding Q_def using x1(1) by (intro mult_right_mono) simp_all
  also have "\<dots> \<le> rnd Q" by (rule rnd_pos_bounds [OF Q])
  finally have lo: "P * (1 - 1 / 2 ^ 53) * (5 / 4) * (1 - 1 / 2 ^ 53) \<le> divisor b"
    by (simp only: d)
  have "rnd Q \<le> Q * (1 + 1 / 2 ^ 53)" by (rule rnd_pos_bounds [OF Q])
  also have "\<dots> \<le> P * (1 + 1 / 2 ^ 53) * (5 / 4) * (1 + 1 / 2 ^ 53)"
    unfolding Q_def using x1(2) by (intro mult_right_mono) simp_all
  finally have hi: "divisor b \<le> P * (1 + 1 / 2 ^ 53) * (5 / 4) * (1 + 1 / 2 ^ 53)"
    by (simp only: d)
  have e1: "P * (1 - 1 / 2 ^ 53) * (5 / 4) * (1 - 1 / 2 ^ 53)
      = B / 8 * ((1 - 2 / 2 ^ 53) * (1 - 1 / 2 ^ 53) * (1 - 1 / 2 ^ 53))"
    by (simp add: P_def)
  have e2: "P * (1 + 1 / 2 ^ 53) * (5 / 4) * (1 + 1 / 2 ^ 53)
      = B / 8 * ((1 - 2 / 2 ^ 53) * (1 + 1 / 2 ^ 53) * (1 + 1 / 2 ^ 53))"
    by (simp add: P_def)
  show "of_nat b / 8 * ((1 - 2 / 2 ^ 53) * (1 - 1 / 2 ^ 53) * (1 - 1 / 2 ^ 53)) \<le> divisor b"
    using lo by (simp only: e1 B_def)
  show "divisor b \<le> of_nat b / 8 * ((1 - 2 / 2 ^ 53) * (1 + 1 / 2 ^ 53) * (1 + 1 / 2 ^ 53))"
    using hi by (simp only: e2 B_def)
qed

lemma divisor_pos: "0 < b \<Longrightarrow> 0 < divisor b"
proof -
  assume b: "0 < b"
  have "(0 :: rat) < of_nat b / 8 * ((1 - 2 / 2 ^ 53) * (1 - 1 / 2 ^ 53) * (1 - 1 / 2 ^ 53))"
    using b by simp
  then show ?thesis using divisor_bounds(1) [OF b] by linarith
qed

lemma divisor_less: "0 < b \<Longrightarrow> divisor b < of_nat b / 8"
proof -
  assume b: "0 < b"
  have "((1 - 2 / 2 ^ 53) * (1 + 1 / 2 ^ 53) * (1 + 1 / 2 ^ 53) :: rat) < 1"
    by simp
  then have "(of_nat b / 8 :: rat) * ((1 - 2 / 2 ^ 53) * (1 + 1 / 2 ^ 53) * (1 + 1 / 2 ^ 53))
      < of_nat b / 8 * 1"
    using b by (intro mult_strict_left_mono) simp_all
  then show ?thesis using divisor_bounds(2) [OF b] by simp
qed

lemma verticesPerChunk_divisor:
  assumes "bytesPerVertex st = Some b" and "0 < b"
  shows "verticesPerChunk st target
     = Number (max 1 \<lfloor>rnd (of_int (target - int (length (originalHeader st))) / divisor b)\<rfloor>)"
  using assms divisor_pos [of b] by (simp add: verticesPerChunk_def Let_def divisor_def)

lemma quotient_nonpos:
  assumes "0 < b" and "a \<le> 0"
  shows "\<lfloor>rnd (of_int a / divisor b)\<rfloor> \<le> 0"
proof -
  have "of_int a / divisor b \<le> 0"
    using assms divisor_pos [of b] by (simp add: divide_le_0_iff)
  then have "rnd (of_int a / divisor b) \<le> 0" by (rule rnd_nonpos)
  then show ?thesis by (simp add: floor_le_iff)
qed

lemma quotient_floor:
  assumes b: "0 < b" and a: "0 < a" "a \<le> 2 ^ 47"
  shows "\<lfloor>rnd (of_int a / divisor b)\<rfloor> = (8 * a) div int b"
proof -
  define A :: rat where "A = of_int a"
  define B :: rat where "B = of_nat b"
  define d where "d = divisor b"
  define n where "n = (8 * a) div int b"
  define K :: rat where "K = (1 - 2 / 2 ^ 53) * (1 - 1 / 2 ^ 53) * (1 - 1 / 2 ^ 53)"
  have A: "0 < A" "A \<le> 2 ^ 47"
    using a by (simp_all add: A_def)
  have B: "0 < B" using b by (simp add: B_def)
  have d: "0 < d" "d < B / 8" "B / 8 * K \<le> d"
    using divisor_pos [OF b] divisor_less [OF b] divisor_bounds(1) [OF b]
    by (simp_all add: d_def B_def K_def)
  have K: "0 < K" by (simp add: K_def)
  have n0: "0 \<le> n" using a b by (simp add: n_def pos_imp_zdiv_nonneg_iff)
  have "n * int b \<le> 8 * a" and "8 * a < (n + 1) * int b"
    using b by (simp_all add: n_def algebra_simps div_mult_mod_eq minus_mod_eq_mult_div [symmetric])
  then have "of_int (n * int b) \<le> (of_int (8 * a) :: rat)"
    and "(of_int (8 * a + 1) :: rat) \<le> of_int ((n + 1) * int b)"
    by (simp_all only: of_int_le_iff)
  then have nb: "of_int n * B \<le> 8 * A" "8 * A + 1 \<le> (of_int n + 1) * B"
    by (simp_all add: A_def B_def)
  have qpos: "0 < A / d" using A d by simp
  have lo: "of_int n < A / d"
  proof -
    have "of_int n \<le> 8 * A / B" using nb(1) B by (simp add: pos_le_divide_eq)
    also have "\<dots> = A / (B / 8)" by simp
    also have "\<dots> < A / d"
      using d A B by (intro divide_strict_left_mono) simp_all
    finally show ?thesis .
  qed
  have ge: "of_int n \<le> rnd (A / d)"
  proof (cases "n = 0")
    case True
    then show ?thesis using rnd_pos [OF qpos] by simp
  next
    case False
    then have "0 < n" using n0 by simp
    moreover have "n < 2 ^ 53"
    proof -
      have "n * 1 \<le> n * int b"
        using n0 b by (intro mult_left_mono) simp_all
      then have "n \<le> 8 * a" using \<open>n * int b \<le> 8 * a\<close> by simp
      then show ?thesis using a(2) by simp
    qed
    ultimately show ?thesis using lo by (intro rnd_ge_int) simp_all
  qed
  have "rnd (A / d) \<le> A / d * (1 + 1 / 2 ^ 53)" by (rule rnd_pos_bounds [OF qpos])
  also have "\<dots> \<le> A / (B / 8 * K) * (1 + 1 / 2 ^ 53)"
    using d A B K by (intro mult_right_mono divide_left_mono) simp_all
  also have "\<dots> < of_int n + 1"
  proof -
    have K4: "1 - 4 / 2 ^ 53 \<le> K"
      by (simp add: K_def)
    define t where "t = A / 2 ^ 53"
    have t: "t \<le> 1 / 64" "0 < t"
      using A by (simp_all add: t_def)
    have "8 * A * (1 + 1 / 2 ^ 53) = 8 * A + 8 * t"
      by (simp add: t_def algebra_simps)
    also have "\<dots> < 8 * A + 1 - 32 * t - 4 / 2 ^ 53"
      using t by simp
    also have "\<dots> = (8 * A + 1) * (1 - 4 / 2 ^ 53)"
      by (simp add: t_def algebra_simps)
    also have "\<dots> \<le> (8 * A + 1) * K"
      using K4 A by (intro mult_left_mono) simp_all
    finally have "8 * A * (1 + 1 / 2 ^ 53) < (8 * A + 1) * K" .
    also have "\<dots> \<le> (of_int n + 1) * B * K"
      using nb(2) K by (intro mult_right_mono) simp_all
    finally have "8 * A * (1 + 1 / 2 ^ 53) < (of_int n + 1) * (B * K)"
      by (simp add: mult.assoc)
    then have "8 * A * (1 + 1 / 2 ^ 53) / (B * K) < of_int n + 1"
      using B K by (simp add: pos_divide_less_eq)
    moreover have "A / (B / 8 * K) * (1 + 1 / 2 ^ 53) = 8 * A * (1 + 1 / 2 ^ 53) / (B * K)"
      by simp
    ultimately show ?thesis by (simp only:)
  qed
  finally have "rnd (A / d) < of_int n + 1" .
  with ge have "\<lfloor>rnd (A / d)\<rfloor> = n" by (simp add: floor_eq_iff)
  then show ?thesis by (simp add: A_def d_def n_def)
qed




text \<open>
  C1, as the code has it: the divisor is \<open>rawBytesPerVertex * (1 - 0.9) * 1.25\<close>, in
  double precision. For a schema as above and at most \<open>2 ^ 47\<close> available bytes the
  chunk-sizing computation returns \<open>max 1 (floor (availableSize / divisor))\<close>, which
  is \<open>max 1 (8 * availableSize div rawBytesPerVertex)\<close>; \<open>rawBytesPerVertex\<close> is
  the sum of the widths of the schema and \<open>availableSize\<close> the budget less the byte
  length of the header.
\<close>

theorem verticesPerChunk_formula:
  fixes st :: processer and targetSizeBytes :: int
  defines "availableSize \<equiv> targetSizeBytes - int (length (originalHeader st))"
    and "rawBytesPerVertex \<equiv> sum_list (map widthOf (map snd (propertyTypes st)))"
  assumes "propertyTypes st \<noteq> []"
    and "\<forall>t \<in> snd ` set (propertyTypes st). t \<notin> set objectPrototypeKeys"
    and "availableSize \<le> 2 ^ 47"
  shows "bytesPerVertex st = Some rawBytesPerVertex
    \<and> verticesPerChunk st targetSizeBytes
        = Number (max 1 \<lfloor>rnd (of_int availableSize
             / rnd (rnd (of_nat rawBytesPerVertex * rnd (1 - rnd (9 / 10))) * rnd (125 / 100)))\<rfloor>)
    \<and> verticesPerChunk st targetSizeBytes
        = Number (max 1 ((8 * availableSize) div int rawBytesPerVertex))"
proof -
  have bpv: "bytesPerVertex st = Some rawBytesPerVertex"
    using bytesPerVertex_sum [OF assms(4)] by (simp add: rawBytesPerVertex_def)
  have b: "0 < rawBytesPerVertex"
    unfolding rawBytesPerVertex_def using assms(3,4) by (intro sum_widths_pos) auto
  have v: "verticesPerChunk st targetSizeBytes
      = Number (max 1 \<lfloor>rnd (of_int availableSize / divisor rawBytesPerVertex)\<rfloor>)"
    using verticesPerChunk_divisor [OF bpv b] by (simp add: availableSize_def)
  have "max 1 \<lfloor>rnd (of_int availableSize / divisor rawBytesPerVertex)\<rfloor>
      = max 1 ((8 * availableSize) div int rawBytesPerVertex)"
  proof (cases "0 < availableSize")
    case True
    then show ?thesis using quotient_floor [OF b True assms(5)] by simp
  next
    case False
    then have "(8 * availableSize) div int rawBytesPerVertex \<le> 0 div int rawBytesPerVertex"
      using b by (intro zdiv_mono1) simp_all
    then have "(8 * availableSize) div int rawBytesPerVertex \<le> 0"
      by simp
    then show ?thesis using quotient_nonpos [OF b, of availableSize] False by (simp add: max_def)
  qed
  then show ?thesis
    using bpv v
    by (simp add: divisor_def EXPECTED_COMPRESSION_RATE_def BASE64_OVERHEAD_def)
qed

text \<open>
  32 bytes per vertex, a header of 120 bytes and the budget 566: 111 vertices per chunk,
  91 chunks over 10000 vertices, 10 vertices in the last chunk.
\<close>

theorem verticesPerChunk_formula_witness:
  "verticesPerChunk scenario 566 = Number 111
   \<and> numChunksOf (vertexCount scenario) (verticesPerChunk scenario 566) = Number 91
   \<and> fst (chunkFile scenario [] 111 10000 0 90) = 10"
proof -
  have pts: "propertyTypes scenario
      = [(''a'', ''float64''), (''b'', ''float64''), (''c'', ''float64''), (''d'', ''float64'')]"
    by code_simp
  have len: "length (originalHeader scenario) = 120"
    by code_simp
  have w: "sum_list (map widthOf (map snd (propertyTypes scenario))) = 32"
    by code_simp
  have a: "propertyTypes scenario \<noteq> []"
    by (simp add: pts)
  have b: "\<forall>t \<in> snd ` set (propertyTypes scenario). t \<notin> set objectPrototypeKeys"
    by (simp add: pts objectPrototypeKeys_def)
  have c: "566 - int (length (originalHeader scenario)) \<le> 2 ^ 47"
    by (simp add: len)
  have v: "verticesPerChunk scenario 566 = Number 111"
    using verticesPerChunk_formula [OF a b c, THEN conjunct2, THEN conjunct2]
    unfolding w len by simp
  have n: "numChunksOf (vertexCount scenario) (Number 111) = Number 91"
    by code_simp
  have l: "fst (chunkFile scenario [] 111 10000 0 90) = 10"
    by (simp add: chunkFile_def Let_def)
  show ?thesis using v n l by simp
qed

text \<open>The same input, evaluated: the computation returns 111, not 11.\<close>

theorem verticesPerChunk_scenario_counterexample:
  "bytesPerVertex scenario = Some 32 \<and> length (originalHeader scenario) = 120
   \<and> vertexCount scenario = Number 10000
   \<and> verticesPerChunk scenario 566 = Number 111"
  by code_simp

section \<open>Properties of splitting and merging back\<close>

lemma unlines_Cons: "unlines (l # ls) = l @ newline # unlines ls"
  by (simp add: unlines_def)

lemma unlines_Nil: "unlines [] = []"
  by (simp add: unlines_def)

lemma unlines_append: "unlines (xs @ ys) = unlines xs @ unlines ys"
  by (simp add: unlines_def)

lemma join_snoc_empty: "join newline (ms @ [[]]) = unlines ms"
proof (induction ms)
  case Nil
  then show ?case by (simp add: unlines_def)
next
  case (Cons m ms)
  then show ?case by (cases ms) (simp_all add: unlines_def)
qed

lemma split_on_unlines:
  "\<forall>l \<in> set ls. newline \<notin> set l \<Longrightarrow> split_on newline (unlines ls) = ls @ [[]]"
proof (induction ls)
  case Nil
  then show ?case by (simp add: unlines_def)
next
  case (Cons l ls)
  then show ?case by (simp add: unlines_Cons split_on_append)
qed

lemma header_lines:
  assumes "suffix [newline] h"
  shows "\<exists>ls. h = unlines ls \<and> ls \<noteq> [] \<and> (\<forall>l \<in> set ls. newline \<notin> set l)
           \<and> split_on newline h = ls @ [[]]"
proof -
  define ss where "ss = split_on newline h"
  have ne: "ss \<noteq> []" and free: "\<forall>l \<in> set ss. newline \<notin> set l"
    by (auto simp: ss_def split_on_nonempty dest: split_on_free)
  have h: "h = join newline ss" by (simp add: ss_def join_split_on)
  have "2 \<le> length ss \<and> last ss = []"
    using suffix_join [OF ne free] assms by (simp add: h)
  then obtain ls where ss: "ss = ls @ [[]]" and ls: "ls \<noteq> []"
    using ne by (cases ss rule: rev_cases) (auto simp: Suc_le_eq)
  have "h = unlines ls" by (simp add: h ss join_snoc_empty)
  moreover have "\<forall>l \<in> set ls. newline \<notin> set l" using free by (simp add: ss)
  ultimately show ?thesis using ls ss by (auto simp: ss_def)
qed

lemma prefix_line:
  assumes "newline \<notin> set pat"
  shows "prefix pat (l @ newline # r) \<longleftrightarrow> prefix pat l"
  using assms by (auto simp: prefix_append prefix_Cons)

lemma first_line:
  "newline \<notin> set x \<Longrightarrow> takeWhile (\<lambda>c. c \<noteq> newline) (x @ newline # r) = x"
  by (induction x) auto

lemma prefix_terminator_line:
  assumes "newline \<notin> set x"
  shows "prefix terminator (x @ newline # r) \<longleftrightarrow> x = ''end_header''"
proof
  assume "prefix terminator (x @ newline # r)"
  then obtain zs where "x @ newline # r = ''end_header'' @ newline # zs"
    by (auto simp: prefix_def terminator_def)
  then have "takeWhile (\<lambda>c. c \<noteq> newline) (x @ newline # r)
      = takeWhile (\<lambda>c. c \<noteq> newline) (''end_header'' @ newline # zs)"
    by simp
  moreover have "takeWhile (\<lambda>c. c \<noteq> newline) (x @ newline # r) = x"
    by (rule first_line [OF assms])
  moreover have "takeWhile (\<lambda>c. c \<noteq> newline) (''end_header'' @ newline # zs) = ''end_header''"
    by (rule first_line) (simp add: newline_def)
  ultimately show "x = ''end_header''"
    by simp
next
  assume "x = ''end_header''"
  then show "prefix terminator (x @ newline # r)"
    by (simp add: terminator_def)
qed

lemma find_first_line:
  assumes "newline \<notin> set l"
  shows "find_first terminator (l @ newline # r)
     = (if suffix ''end_header'' l then Some (length l - 10)
        else map_option (\<lambda>j. Suc (length l + j)) (find_first terminator r))"
  using assms
proof (induction l)
  case Nil
  have "\<not> prefix terminator (newline # r)"
    by (simp add: terminator_def newline_def)
  then show ?case
    by (simp add: option.map_ident [unfolded id_def])
next
  case (Cons c l)
  have free: "newline \<notin> set (c # l)" "newline \<notin> set l"
    using Cons.prems by simp_all
  show ?case
  proof (cases "c # l = ''end_header''")
    case True
    then have "prefix terminator ((c # l) @ newline # r)"
      using prefix_terminator_line [OF free(1)] by simp
    then have "find_first terminator ((c # l) @ newline # r) = Some 0"
      by simp
    moreover have "suffix ''end_header'' (c # l)" "length (c # l) - 10 = 0"
      using True by simp_all
    ultimately show ?thesis by (simp only: if_True)
  next
    case False
    then have np: "\<not> prefix terminator ((c # l) @ newline # r)"
      using prefix_terminator_line [OF free(1)] by simp
    have sf: "suffix ''end_header'' (c # l) \<longleftrightarrow> suffix ''end_header'' l"
      using False by (auto simp: suffix_Cons)
    have f: "find_first terminator ((c # l) @ newline # r)
        = map_option Suc (find_first terminator (l @ newline # r))"
      using np by simp
    show ?thesis
    proof (cases "suffix ''end_header'' l")
      case True
      then have "10 \<le> length l"
        using suffix_length_le by fastforce
      then show ?thesis
        using True Cons.IH [OF free(2)] by (simp only: f sf) simp
    next
      case False
      then show ?thesis
        using Cons.IH [OF free(2)] by (simp only: f sf) (simp add: option.map_comp comp_def)
    qed
  qed
qed

lemma takeWhile_digits_line:
  "takeWhile isDigit (y @ newline # r) = takeWhile isDigit y"
  by (induction y) (auto simp: isDigit_def newline_def)

lemma matchVertex_line:
  assumes "newline \<notin> set l"
  shows "matchVertex (l @ newline # r)
     = (case matchVertex l of Some d \<Rightarrow> Some d | None \<Rightarrow> matchVertex r)"
  using assms
proof (induction l)
  case Nil
  show ?case by (simp add: newline_def)
next
  case (Cons c l)
  have pat: "newline \<notin> set ''element vertex ''"
    by (simp add: newline_def)
  have p: "prefix ''element vertex '' ((c # l) @ newline # r) \<longleftrightarrow> prefix ''element vertex '' (c # l)"
    by (rule prefix_line [OF pat])
  have d: "takeWhile isDigit (drop 15 ((c # l) @ newline # r)) = takeWhile isDigit (drop 15 (c # l))"
    if "prefix ''element vertex '' (c # l)"
  proof -
    from that have "15 \<le> length (c # l)"
      using prefix_length_le by fastforce
    then have "drop 15 ((c # l) @ newline # r) = drop 15 (c # l) @ newline # r"
      by simp
    then show ?thesis by (simp only: takeWhile_digits_line)
  qed
  have ih: "matchVertex (l @ newline # r)
      = (case matchVertex l of Some d \<Rightarrow> Some d | None \<Rightarrow> matchVertex r)"
    using Cons by simp
  show ?case
  proof (cases "prefix ''element vertex '' (c # l)")
    case True
    have "matchVertex ((c # l) @ newline # r)
        = (if takeWhile isDigit (drop 15 (c # l)) \<noteq> []
           then Some (takeWhile isDigit (drop 15 (c # l)))
           else matchVertex (l @ newline # r))"
      using True p d [OF True] by (simp only: append_Cons matchVertex.simps) simp
    moreover have "matchVertex (c # l)
        = (if takeWhile isDigit (drop 15 (c # l)) \<noteq> []
           then Some (takeWhile isDigit (drop 15 (c # l)))
           else matchVertex l)"
      using True by (simp only: matchVertex.simps) simp
    ultimately show ?thesis by (simp add: ih)
  next
    case False
    have "matchVertex ((c # l) @ newline # r) = matchVertex (l @ newline # r)"
      using False p by (simp only: append_Cons matchVertex.simps) simp
    moreover have "matchVertex (c # l) = matchVertex l"
      using False by (simp only: matchVertex.simps) simp
    ultimately show ?thesis by (simp add: ih)
  qed
qed

lemma unlines_length_ge:
  assumes "ls \<noteq> []" and "suffix ''end_header'' (last ls)"
  shows "11 \<le> length (unlines ls)"
proof -
  obtain ks l where ls: "ls = ks @ [l]" using assms(1) by (cases ls rule: rev_cases) auto
  then have "10 \<le> length l" using assms(2) suffix_length_le by fastforce
  then show ?thesis by (simp add: ls unlines_append unlines_Cons unlines_Nil)
qed

lemma find_first_unlines:
  assumes "\<forall>l \<in> set ls. newline \<notin> set l" and "ls \<noteq> []" and "termLines ls"
  shows "find_first terminator (unlines ls @ d) = Some (length (unlines ls) - 11)"
  using assms
proof (induction ls)
  case Nil
  then show ?case by simp
next
  case (Cons l ls)
  have free: "newline \<notin> set l" using Cons.prems(1) by simp
  show ?case
  proof (cases "ls = []")
    case True
    then have "suffix ''end_header'' l" using Cons.prems(3) by (simp add: termLines_def)
    moreover from this have "10 \<le> length l" using suffix_length_le by fastforce
    ultimately show ?thesis
      using find_first_line [OF free, of d] True by (simp add: unlines_Cons unlines_Nil)
  next
    case False
    then have t: "termLines ls" and n: "\<not> suffix ''end_header'' l"
      using Cons.prems(3) by (simp_all add: termLines_def)
    have ih: "find_first terminator (unlines ls @ d) = Some (length (unlines ls) - 11)"
      using Cons.IH [OF _ False t] Cons.prems(1) by simp
    have "11 \<le> length (unlines ls)"
      using unlines_length_ge [OF False] t by (simp add: termLines_def)
    then show ?thesis
      using find_first_line [OF free, of "unlines ls @ d"] n ih by (simp add: unlines_Cons)
  qed
qed

lemma unlines_termLines:
  assumes "\<forall>l \<in> set ls. newline \<notin> set l" and "ls \<noteq> []"
    and "find_first terminator (unlines ls @ d) = Some (length (unlines ls) - 11)"
    and "11 \<le> length (unlines ls)"
  shows "termLines ls"
  using assms
proof (induction ls)
  case Nil
  then show ?case by simp
next
  case (Cons l ls)
  have free: "newline \<notin> set l" using Cons.prems(1) by simp
  show ?case
  proof (cases "ls = []")
    case True
    have "suffix ''end_header'' l"
    proof (rule ccontr)
      assume "\<not> suffix ''end_header'' l"
      then show False
        using find_first_line [OF free, of d] Cons.prems(3,4) True
        by (auto simp: unlines_Cons unlines_Nil)
    qed
    then show ?thesis using True by (simp add: termLines_def)
  next
    case False
    then have pos: "0 < length (unlines ls)"
      by (cases ls) (simp_all add: unlines_Cons)
    have n: "\<not> suffix ''end_header'' l"
    proof
      assume s: "suffix ''end_header'' l"
      then have l10: "10 \<le> length l" using suffix_length_le by fastforce
      have "find_first terminator (unlines (l # ls) @ d) = Some (length l - 10)"
        using find_first_line [OF free, of "unlines ls @ d"] s by (simp add: unlines_Cons)
      then have "length l - 10 = length (unlines (l # ls)) - 11"
        using Cons.prems(3) by simp
      moreover have "length (unlines (l # ls)) = length l + 1 + length (unlines ls)"
        by (simp add: unlines_Cons)
      ultimately show False using pos l10 by arith
    qed
    then obtain j where j: "find_first terminator (unlines ls @ d) = Some j"
      and e: "Suc (length l + j) = length (unlines (l # ls)) - 11"
      using find_first_line [OF free, of "unlines ls @ d"] Cons.prems(3)
      by (auto simp: unlines_Cons)
    from e have "11 \<le> length (unlines ls)" "j = length (unlines ls) - 11"
      by (simp_all add: unlines_Cons)
    then have "termLines ls"
      using Cons.IH [OF _ False] Cons.prems(1) j by simp
    then show ?thesis using n False by (simp add: termLines_def)
  qed
qed

lemma find_first_Some:
  "find_first sub s = Some i \<Longrightarrow> prefix sub (drop i s) \<and> i \<le> length s"
proof (induction s arbitrary: i)
  case Nil
  then show ?case by (simp split: if_splits)
next
  case (Cons c s)
  show ?case
  proof (cases "prefix sub (c # s)")
    case True
    then have "i = 0" using Cons.prems by (simp only: find_first.simps if_True) simp
    then show ?thesis using True by simp
  next
    case False
    then obtain j where "find_first sub s = Some j" "i = Suc j"
      using Cons.prems by (simp only: find_first.simps if_False) auto
    then show ?thesis using Cons.IH [of j] by simp
  qed
qed

lemma header_split:
  assumes "find_first terminator data = Some i"
  shows "data = take (i + 11) data @ drop (i + 11) data"
    and "length (take (i + 11) data) = i + 11"
    and "suffix terminator (take (i + 11) data)"
proof -
  have p: "prefix terminator (drop i data)" and "i \<le> length data"
    using find_first_Some [OF assms] by simp_all
  then obtain zs where zs: "drop i data = terminator @ zs"
    by (auto simp: prefix_def)
  then have "length (drop i data) = 11 + length zs"
    by (simp add: terminator_def)
  then show len: "length (take (i + 11) data) = i + 11"
    by simp
  show "data = take (i + 11) data @ drop (i + 11) data" by simp
  have "take (i + 11) data = take i data @ take 11 (drop i data)"
    by (simp add: take_add)
  also have "take 11 (drop i data) = terminator"
    by (simp add: zs terminator_def)
  finally show "suffix terminator (take (i + 11) data)"
    by (simp add: suffix_def)
qed

lemma unlines_ends: "ms \<noteq> [] \<Longrightarrow> suffix [newline] (unlines ms)"
  by (cases ms rule: rev_cases) (simp_all add: unlines_append unlines_Cons unlines_Nil suffix_def)

lemma createChunkHeader_unlines:
  assumes "originalHeader st = unlines ls" and "ls \<noteq> []" and "\<forall>l \<in> set ls. newline \<notin> set l"
  shows "createChunkHeader st k = unlines (map (rewriteLine k) ls)"
proof -
  have "rewriteLine k [] = []" by (simp add: rewriteLine_empty)
  then have "join newline (map (rewriteLine k) (split_on newline (originalHeader st)))
      = unlines (map (rewriteLine k) ls)"
    using join_snoc_empty [of "map (rewriteLine k) ls"]
    by (simp add: assms(1) split_on_unlines [OF assms(3)])
  moreover have "suffix [newline] (unlines (map (rewriteLine k) ls))"
    using assms(2) by (intro unlines_ends) simp
  ultimately show ?thesis
    by (simp add: createChunkHeader_rewriteLine Let_def)
qed

lemma decimal_isDigit: "c \<in> set (decimal n) \<Longrightarrow> isDigit c"
  unfolding isDigit_def using decimal_digits by (rule subsetD)

lemma numberToString_last: "numberToString x \<noteq> [] \<and> last (numberToString x) \<noteq> CHR ''r''"
proof (cases x)
  case (Number n)
  have "decimal m \<noteq> [] \<and> last (decimal m) \<noteq> CHR ''r''" for m
  proof -
    have "last (decimal m) \<in> set (decimal m)" using decimal_nonempty by simp
    then have "isDigit (last (decimal m))" by (rule decimal_isDigit)
    then show ?thesis using decimal_nonempty by (auto simp: isDigit_def)
  qed
  then show ?thesis using Number by (simp add: numberToString_def)
next
  case Infinity
  then show ?thesis by (simp add: numberToString_def)
next
  case NaN
  then show ?thesis by (simp add: numberToString_def)
qed

lemma vertexLine_no_terminator: "\<not> suffix ''end_header'' (vertexLine x)"
proof
  assume "suffix ''end_header'' (vertexLine x)"
  then obtain zs where "vertexLine x = zs @ ''end_header''" by (auto simp: suffix_def)
  then have "last (vertexLine x) = CHR ''r''" by simp
  moreover have "last (vertexLine x) = last (numberToString x)"
    using numberToString_last [of x] by (simp add: vertexLine_def)
  ultimately show False using numberToString_last [of x] by simp
qed

lemma termLines_map:
  assumes "termLines ls" and "ls \<noteq> []" and "\<not> includes_str (last ls) ''element vertex''"
  shows "termLines (map (rewriteLine k) ls)"
proof -
  have "\<not> suffix ''end_header'' (rewriteLine k l)" if "l \<in> set (butlast ls)" for l
    using that assms(1) vertexLine_no_terminator [of k] by (simp add: termLines_def rewriteLine_def)
  moreover have "last (map (rewriteLine k) ls) = last ls"
    using assms(2,3) by (simp add: last_map rewriteLine_def)
  moreover have "set (butlast (map (rewriteLine k) ls)) = rewriteLine k ` set (butlast ls)"
    by (simp only: map_butlast [symmetric] set_map)
  ultimately show ?thesis
    using assms(1) unfolding termLines_def by auto
qed

lemma matchVertex_vertexLine:
  assumes "0 \<le> k"
  shows "matchVertex (vertexLine (Number k)) = Some (decimal (nat k))"
proof -
  have v: "vertexLine (Number k) = CHR ''e'' # ''lement vertex '' @ decimal (nat k)"
    using assms by (simp add: vertexLine_def numberToString_def)
  have p: "prefix ''element vertex '' (CHR ''e'' # ''lement vertex '' @ decimal (nat k))"
    by simp
  have d: "drop 15 (CHR ''e'' # ''lement vertex '' @ decimal (nat k)) = decimal (nat k)"
    by simp
  have t: "takeWhile isDigit (decimal (nat k)) = decimal (nat k)"
    by (simp add: takeWhile_eq_all_conv decimal_isDigit)
  show ?thesis
    unfolding v by (simp only: matchVertex.simps p d t) (simp add: decimal_nonempty)
qed

lemma rewriteLine_free: "newline \<notin> set l \<Longrightarrow> newline \<notin> set (rewriteLine k l)"
  using vertexLine_free [of k] by (simp add: rewriteLine_def)

lemma matchVertex_rewritten:
  assumes "\<forall>l \<in> set ls. newline \<notin> set l"
    and "\<exists>l \<in> set ls. includes_str l ''element vertex''"
    and "0 \<le> k"
  shows "matchVertex (unlines (map (rewriteLine (Number k)) ls) @ d) = Some (decimal (nat k))"
  using assms(1,2)
proof (induction ls)
  case Nil
  then show ?case by simp
next
  case (Cons l ls)
  have free: "newline \<notin> set (rewriteLine (Number k) l)"
    using Cons.prems(1) by (simp add: rewriteLine_free)
  have m: "matchVertex (unlines (map (rewriteLine (Number k)) (l # ls)) @ d)
      = (case matchVertex (rewriteLine (Number k) l) of
           Some x \<Rightarrow> Some x
         | None \<Rightarrow> matchVertex (unlines (map (rewriteLine (Number k)) ls) @ d))"
    using matchVertex_line [OF free] by (simp add: unlines_Cons)
  show ?case
  proof (cases "includes_str l ''element vertex''")
    case True
    then have "rewriteLine (Number k) l = vertexLine (Number k)"
      by (simp add: rewriteLine_def)
    then show ?thesis
      unfolding m using matchVertex_vertexLine [OF assms(3)] by simp
  next
    case False
    then have "matchVertex l = None"
      using matchVertex_includes [of l] by (cases "matchVertex l") auto
    moreover have "\<exists>l \<in> set ls. includes_str l ''element vertex''"
      using Cons.prems(2) False by auto
    moreover have "rewriteLine (Number k) l = l"
      using False by (simp add: rewriteLine_def)
    ultimately show ?thesis
      unfolding m using Cons.IH Cons.prems(1) by simp
  qed
qed

lemma radixValue_snoc: "radixValue r (xs @ [c]) = radixValue r xs * r + digitValue c"
  by (simp add: radixValue_def)

lemma digitValue_char: "d < 10 \<Longrightarrow> digitValue (char_of (48 + d)) = d" for d :: nat
proof -
  assume d: "d < 10"
  then have "isDigit (char_of (48 + d))" using digit_char [of d] by (simp add: isDigit_def)
  moreover have "of_char (char_of (48 + d)) = 48 + d"
    using d by (simp add: of_char_of)
  ultimately show ?thesis by (simp add: digitValue_def)
qed

lemma radixValue_decimal: "radixValue 10 (decimal n) = n"
proof (induction n rule: decimal.induct)
  case (1 n)
  show ?case
  proof (cases "n < 10")
    case True
    then show ?thesis
      using digitValue_char [of n] by (subst decimal.simps) (simp add: radixValue_def)
  next
    case False
    then show ?thesis
      using 1 digitValue_char [of "n mod 10"]
      by (subst decimal.simps) (simp add: radixValue_snoc)
  qed
qed

lemma readChunkPly_chunk:
  assumes "\<forall>l \<in> set ms. newline \<notin> set l" and "ms \<noteq> []" and "termLines ms"
  shows "readChunkPly (unlines ms @ d)
     = \<lparr>headerEndIndex = int (length (unlines ms)), vertexData = d\<rparr>"
proof -
  have "11 \<le> length (unlines ms)"
    using unlines_length_ge [OF assms(2)] assms(3) by (simp add: termLines_def)
  then have "headerEndIndexOf (unlines ms @ d) = int (length (unlines ms))"
    using find_first_unlines [OF assms, of d] by (simp add: headerEndIndexOf_cases)
  then show ?thesis
    using sliceFrom_drop [where s = "unlines ms @ d" and k = "int (length (unlines ms))"]
    by (simp add: readChunkPly_def Let_def)
qed

lemma rnd_le_int:
  assumes "0 < y" and "y \<le> of_int m" and "m < 2 ^ 53"
  shows "rnd y \<le> of_int m"
proof -
  define s :: rat where "s = 2 powi (fexp y - 52)"
  have s: "0 < s" by (simp add: s_def)
  have r: "rnd y = of_int (roundHalfEven (y / s)) * s"
    using assms(1) by (simp add: rnd_def s_def Let_def)
  have "(of_int m :: rat) < 2 ^ 53"
    using assms(3) by (metis of_int_less_iff of_int_numeral of_int_power)
  then have lt: "(2 :: rat) powi fexp y < 2 powi 53"
    using fexp_bounds(1) [of y] assms(1,2) by simp
  have e: "fexp y \<le> 52"
  proof (rule ccontr)
    assume "\<not> fexp y \<le> 52"
    then have "53 \<le> fexp y" by simp
    then have "(2 :: rat) powi 53 \<le> 2 powi fexp y"
      by (intro power_int_increasing) simp_all
    with lt show False by simp
  qed
  define k where "k = m * 2 ^ nat (52 - fexp y)"
  have sv: "s = 1 / 2 ^ nat (52 - fexp y)"
    unfolding s_def using e by (rule powi_small)
  then have ks: "of_int k * s = of_int m"
    by (simp add: k_def)
  have "y / s \<le> of_int m / s" using assms(2) s by (simp add: divide_right_mono)
  also have "\<dots> = of_int k" using s by (simp add: ks [symmetric])
  finally have "roundHalfEven (y / s) \<le> k" by (rule roundHalfEven_le)
  then have "of_int (roundHalfEven (y / s)) * s \<le> of_int k * s"
    using s by (simp add: mult_right_mono)
  then show ?thesis by (simp add: r ks)
qed

lemma ceiling_rnd_div:
  assumes "0 < v" and "0 \<le> n" and "n < 2 ^ 53"
  shows "\<lceil>rnd (of_int n / of_int v)\<rceil> = (n + v - 1) div v"
proof (cases "n = 0")
  case True
  have "(v - 1) div v = 0" using assms(1) by simp
  then show ?thesis using True by (simp add: rnd_def)
next
  case False
  then have n: "0 < n" using assms(2) by simp
  define N where "N = (n + v - 1) div v"
  define x :: rat where "x = of_int n / of_int v"
  have x: "0 < x" using n assms(1) by (simp add: x_def)
  define r where "r = (n + v - 1) mod v"
  have eq: "N * v + r = n + v - 1"
    unfolding N_def r_def by (rule div_mult_mod_eq)
  have r: "0 \<le> r" "r < v"
    using assms(1) by (simp_all add: r_def)
  have up: "n \<le> N * v"
    using eq r by linarith
  have "(N - 1) * v = N * v - v"
    by (simp add: algebra_simps)
  then have lo: "(N - 1) * v < n"
    using eq r by linarith
  have N1: "1 \<le> N"
  proof (rule ccontr)
    assume "\<not> 1 \<le> N"
    then have "N \<le> 0" by simp
    then have "N * v \<le> 0" using assms(1) by (simp add: mult_le_0_iff)
    with up n show False by simp
  qed
  have Nn: "N \<le> n"
  proof -
    have "(N - 1) * 1 \<le> (N - 1) * v"
      using N1 assms(1) by (intro mult_left_mono) simp_all
    with lo show ?thesis by simp
  qed
  have vr: "(0 :: rat) < of_int v" using assms(1) by simp
  have "of_int n \<le> (of_int (N * v) :: rat)" using up by (simp only: of_int_le_iff)
  then have "x \<le> of_int N"
    using vr by (simp add: x_def pos_divide_le_eq)
  then have hi: "rnd x \<le> of_int N"
    using x Nn assms(3) by (intro rnd_le_int) simp_all
  have gt: "of_int (N - 1) < rnd x"
  proof -
    have "(of_int ((N - 1) * v + 1) :: rat) \<le> of_int n"
      using lo by (simp only: of_int_le_iff)
    then have a: "of_int (N - 1) * of_int v + 1 \<le> (of_int n :: rat)"
      by simp
    have "(of_int n :: rat) < 2 ^ 53"
      using assms(3) by (metis of_int_less_iff of_int_numeral of_int_power)
    then have b: "(of_int n :: rat) / 2 ^ 53 < 1"
      by simp
    have "of_int (N - 1) * of_int v < (of_int n :: rat) - of_int n / 2 ^ 53"
      using a b by linarith
    also have "\<dots> = x * (1 - 1 / 2 ^ 53) * of_int v"
      using vr by (simp add: x_def algebra_simps)
    finally have "of_int (N - 1) < x * (1 - 1 / 2 ^ 53)"
      using vr by (simp only: mult_less_cancel_right_pos)
    also have "\<dots> \<le> rnd x" by (rule rnd_pos_bounds [OF x])
    finally show ?thesis .
  qed
  have "\<lceil>rnd x\<rceil> = N"
    using gt hi by (intro ceiling_unique) simp_all
  then show ?thesis by (simp add: x_def N_def)
qed

lemma slice_nat:
  assumes "a \<le> b" and "b \<le> length s"
  shows "slice s (of_nat a) (of_nat b) = take (b - a) (drop a s)"
proof -
  have "adjustOffset (of_nat a) (length s) = a" "adjustOffset (of_nat b) (length s) = b"
    using assms by (simp_all add: adjustOffset_def Let_def)
  then show ?thesis by (simp add: slice_def Let_def)
qed

lemma concat_chunks:
  fixes v n w :: nat
  assumes "length payload = n * w"
  shows "concat (map (\<lambda>i. take (min ((i + 1) * v) n * w - i * v * w) (drop (i * v * w) payload))
            [0..<j])
     = take (min (j * v) n * w) payload"
proof (induction j)
  case 0
  then show ?case by simp
next
  case (Suc j)
  show ?case
  proof (cases "j * v \<le> n")
    case True
    let ?e = "min ((j + 1) * v) n"
    have le: "j * v \<le> ?e" using True by simp
    then have "j * v * w \<le> ?e * w" by (rule mult_right_mono) simp
    then have "?e * w = j * v * w + (?e * w - j * v * w)" by simp
    then have "take (?e * w) payload
        = take (j * v * w) payload @ take (?e * w - j * v * w) (drop (j * v * w) payload)"
      by (metis take_add)
    then show ?thesis using Suc True by (simp add: min_def)
  next
    case False
    then have "min ((j + 1) * v) n = n" "min (j * v) n = n" by simp_all
    moreover have "n * w - j * v * w = 0"
      using False by (simp add: mult_le_mono1)
    ultimately show ?thesis using Suc by simp
  qed
qed

lemma sum_chunks:
  fixes v n :: nat
  shows "sum_list (map (\<lambda>i. min ((i + 1) * v) n - i * v) [0..<j]) = min (j * v) n"
proof (induction j)
  case 0
  then show ?case by simp
next
  case (Suc j)
  then show ?case by (cases "j * v \<le> n") (auto simp: min_def)
qed

lemma verticesPerChunk_Number: "verticesPerChunk st t = Number v \<Longrightarrow> 1 \<le> v"
  by (auto simp: verticesPerChunk_def Let_def split: option.splits if_splits)

lemma readPlyHeader_parts:
  assumes "find_first terminator data = Some i" and "readPlyHeader st data = (st', p)"
  shows "originalHeader st' = take (i + 11) data" and "vertexData p = drop (i + 11) data"
proof -
  have hei: "headerEndIndexOf data = int (i + 11)"
    using assms(1) by (simp add: headerEndIndexOf_cases)
  obtain vc pts ex where sc: "scanHeader st (slice data 0 (of_int (int (i + 11)))) = (vc, pts, ex)"
    by (cases "scanHeader st (slice data 0 (of_int (int (i + 11))))") auto
  have "originalHeader st' = slice data 0 (of_int (int (i + 11)))"
    and "vertexData p = sliceFrom data (of_int (int (i + 11)))"
    using assms(2) sc by (auto simp: readPlyHeader_def Let_def hei)
  moreover have "slice data 0 (of_int (int (i + 11))) = take (i + 11) data"
    using slice_take [where s = data and k = "int (i + 11)"] by (simp only: nat_int)
  moreover have "sliceFrom data (of_int (int (i + 11))) = drop (i + 11) data"
    using sliceFrom_drop [where s = data and k = "int (i + 11)"] by (simp only: nat_int)
  ultimately show "originalHeader st' = take (i + 11) data"
    and "vertexData p = drop (i + 11) data"
    by (simp_all only:)
qed

lemma header_structure:
  assumes "find_first terminator data = Some i" and "h = take (i + 11) data"
  shows "\<exists>ls. h = unlines ls \<and> ls \<noteq> [] \<and> (\<forall>l \<in> set ls. newline \<notin> set l)
           \<and> split_on newline h = ls @ [[]] \<and> termLines ls"
proof -
  have d: "data = h @ drop (i + 11) data" and len: "length h = i + 11"
    and suf: "suffix terminator h"
    using header_split [OF assms(1)] by (simp_all add: assms(2))
  have "suffix [newline] terminator" by (simp add: terminator_def suffix_def)
  then have "suffix [newline] h" using suf by (rule suffix_order.trans)
  then obtain ls where ls: "h = unlines ls" "ls \<noteq> []" "\<forall>l \<in> set ls. newline \<notin> set l"
    "split_on newline h = ls @ [[]]"
    using header_lines by blast
  have "find_first terminator (unlines ls @ drop (i + 11) data) = Some (length (unlines ls) - 11)"
    using assms(1) d len by (simp add: ls(1) [symmetric])
  moreover have "11 \<le> length (unlines ls)" using len by (simp add: ls(1) [symmetric])
  ultimately have "termLines ls"
    using unlines_termLines [OF ls(3) ls(2)] by blast
  then show ?thesis using ls by blast
qed

lemma rnd_nat [simp]: "m < 2 ^ 53 \<Longrightarrow> rnd (of_nat m) = of_nat m" for m :: nat
proof -
  assume "m < 2 ^ 53"
  then have "\<bar>int m\<bar> < 2 ^ 53" by (simp add: nat_less_iff [symmetric] nat_power_eq)
  from rnd_int [OF this] show ?thesis by simp
qed

lemma chunkFile_eq:
  fixes V M w i :: nat
  assumes "length payload = M * w" and "M * w < 2 ^ 53" and "i * V \<le> M"
  defines "k \<equiv> min ((i + 1) * V) M - i * V"
  shows "chunkFile st payload (int V) (int M) (of_nat w) i
     = (int k, createChunkHeader st (Number (int k))
               @ take (min ((i + 1) * V) M * w - i * V * w) (drop (i * V * w) payload))"
proof -
  let ?E = "min ((i + 1) * V) M"
  have "(int i + 1) * int V = int ((i + 1) * V)"
    by (simp add: algebra_simps)
  then have e: "min ((int i + 1) * int V) (int M) = int ?E"
    by (simp only: of_nat_min)
  have s: "int i * int V = int (i * V)" by simp
  have k: "int ?E - int (i * V) = int k"
    using assms(3) by (simp add: k_def of_nat_diff)
  have sb: "i * V * w \<le> ?E * w" using assms(3) by (intro mult_right_mono) simp_all
  have eb: "?E * w \<le> M * w" by (intro mult_right_mono) simp_all
  have rs: "rnd (of_int (int (i * V)) * of_nat w) = of_nat (i * V * w)"
  proof -
    have "i * V * w < 2 ^ 53" using sb eb assms(2) by linarith
    then have "rnd (of_nat (i * V * w)) = of_nat (i * V * w)" by (rule rnd_nat)
    then show ?thesis by simp
  qed
  have re: "rnd (of_int (int ?E) * of_nat w) = of_nat (?E * w)"
  proof -
    have "?E * w < 2 ^ 53" using eb assms(2) by linarith
    then have "rnd (of_nat (?E * w)) = of_nat (?E * w)" by (rule rnd_nat)
    then show ?thesis by simp
  qed
  have sl: "slice payload (of_nat (i * V * w)) (of_nat (?E * w))
      = take (?E * w - i * V * w) (drop (i * V * w) payload)"
    using sb eb by (intro slice_nat) (simp_all add: assms(1))
  show ?thesis
    unfolding chunkFile_def Let_def e s k rs re sl by simp
qed

lemma emit_foldl:
  fixes t0 :: int
  shows "foldl (\<lambda>(fs', t) i. case g i of (k, c) \<Rightarrow> (fs'(i \<mapsto> c), t + k)) (fs, t0) [0..<N]
     = ((\<lambda>i. if i < N then Some (snd (g i)) else fs i),
        t0 + sum_list (map (\<lambda>i. fst (g i)) [0..<N]))"
proof (induction N)
  case 0
  then show ?case by simp
next
  case (Suc N)
  let ?f = "\<lambda>(fs', t) i. case g i of (k, c) \<Rightarrow> (fs'(i \<mapsto> c), t + k)"
  let ?F = "\<lambda>N i. if i < N then Some (snd (g i)) else fs i"
  let ?T = "\<lambda>N. t0 + sum_list (map (\<lambda>i. fst (g i)) [0..<N])"
  have upd: "(?F N)(N \<mapsto> snd (g N)) = ?F (Suc N)"
    by (rule ext) (simp add: less_Suc_eq)
  have "foldl ?f (fs, t0) [0..<Suc N] = ?f (foldl ?f (fs, t0) [0..<N]) N"
    by simp
  also have "\<dots> = ?f (?F N, ?T N) N"
    by (simp only: Suc)
  also have "\<dots> = ((?F N)(N \<mapsto> snd (g N)), ?T N + fst (g N))"
    by (simp add: case_prod_beta)
  also have "\<dots> = (?F (Suc N), ?T (Suc N))"
    by (simp only: upd) (simp add: add.assoc)
  finally show ?case .
qed

lemma chunk_start:
  assumes "0 < V" and "i < chunkCount M V"
  shows "i * V < M"
proof -
  have "Suc i \<le> (M + V - 1) div V" using assms(2) by (simp add: chunkCount_def)
  then have "Suc i * V \<le> M + V - 1"
    using assms(1) by (simp add: less_eq_div_iff_mult_less_eq)
  then show ?thesis using assms(1) by simp
qed

lemma chunkCount_covers: "0 < V \<Longrightarrow> M \<le> chunkCount M V * V"
  unfolding chunkCount_def by (rule ceil_div_covers)

lemma chunkCount_pos: "0 < V \<Longrightarrow> 0 < M \<Longrightarrow> 0 < chunkCount M V"
  using chunkCount_covers [of V M] by (cases "chunkCount M V") auto

lemma emitChunks_emitted:
  fixes M V w :: nat
  assumes "0 < V" and "0 < M" and "length payload = M * w" and "M * w < 2 ^ 53"
  shows "emitChunks st payload (int V) (int M) (chunkCount M V) fs
     = (emitted st payload M V w fs, int M)"
proof -
  let ?K = "chunkCount M V"
  let ?g = "chunkFile st payload (int V) (int M) (of_nat w)"
  have "w < 2 ^ 53"
  proof -
    have "w \<le> M * w" using assms(2) by (cases M) simp_all
    then show ?thesis using assms(4) by (rule le_less_trans)
  qed
  then have "rnd (of_nat w) = of_nat w" by (rule rnd_nat)
  moreover have "(of_nat (length payload) :: rat) / of_int (int M) = of_nat w"
    using assms(2) by (simp add: assms(3))
  ultimately have abpv: "rnd (of_nat (length payload) / of_int (int M)) = of_nat w"
    by simp
  have g: "?g i = (int (chunkVertices M V i), chunkContent st payload M V w i)" if "i < ?K" for i
  proof -
    have "i * V \<le> M" using chunk_start [OF assms(1) that] by simp
    from chunkFile_eq [OF assms(3,4) this, of st]
    show ?thesis by (simp add: chunkVertices_def chunkContent_def chunkBytes_def)
  qed
  have store: "(\<lambda>i. if i < ?K then Some (snd (?g i)) else fs i) = emitted st payload M V w fs"
    by (rule ext) (simp add: emitted_def g)
  have "map (\<lambda>i. fst (?g i)) [0..<?K] = map (\<lambda>i. int (chunkVertices M V i)) [0..<?K]"
    by (rule map_cong) (simp_all add: g)
  also have "\<dots> = map int (map (\<lambda>i. chunkVertices M V i) [0..<?K])"
    by simp
  finally have "sum_list (map (\<lambda>i. fst (?g i)) [0..<?K])
      = int (sum_list (map (\<lambda>i. chunkVertices M V i) [0..<?K]))"
    by (simp only: sum_list_of_nat)
  also have "\<dots> = int (min (?K * V) M)"
    unfolding chunkVertices_def by (simp only: sum_chunks)
  also have "\<dots> = int M"
    using chunkCount_covers [OF assms(1), of M] by (simp add: min_def)
  finally have total: "sum_list (map (\<lambda>i. fst (?g i)) [0..<?K]) = int M" .
  show ?thesis
    unfolding emitChunks_def Let_def abpv
    by (simp only: emit_foldl store total) simp
qed

lemma chunkContent_facts:
  assumes "originalHeader st = unlines ls" and "ls \<noteq> []" and "\<forall>l \<in> set ls. newline \<notin> set l"
    and "termLines ls" and "\<exists>l \<in> set ls. includes_str l ''element vertex''"
    and "\<not> includes_str (last ls) ''element vertex''"
  shows "matchVertex (chunkContent st payload M V w i)
       = Some (decimal (chunkVertices M V i))"
    and "declaredCount (chunkContent st payload M V w i) = int (chunkVertices M V i)"
    and "vertexData (readChunkPly (chunkContent st payload M V w i)) = chunkBytes payload M V w i"
proof -
  let ?k = "Number (int (chunkVertices M V i))"
  let ?ms = "map (rewriteLine ?k) ls"
  have c: "chunkContent st payload M V w i = unlines ?ms @ chunkBytes payload M V w i"
    using createChunkHeader_unlines [OF assms(1-3)] by (simp add: chunkContent_def)
  show m: "matchVertex (chunkContent st payload M V w i) = Some (decimal (chunkVertices M V i))"
    using matchVertex_rewritten [OF assms(3) assms(5), of "int (chunkVertices M V i)"]
    by (simp add: c)
  show "declaredCount (chunkContent st payload M V w i) = int (chunkVertices M V i)"
    by (simp add: declaredCount_def m radixValue_decimal)
  have f: "\<forall>l \<in> set ?ms. newline \<notin> set l"
    using assms(3) by (simp add: rewriteLine_free)
  have n: "?ms \<noteq> []" using assms(2) by simp
  have t: "termLines ?ms" using assms(4,2,6) by (rule termLines_map)
  show "vertexData (readChunkPly (chunkContent st payload M V w i))
      = chunkBytes payload M V w i"
    using readChunkPly_chunk [OF f n t, of "chunkBytes payload M V w i"] by (simp add: c)
qed

lemma emitted_counts:
  assumes "originalHeader st = unlines ls" and "ls \<noteq> []" and "\<forall>l \<in> set ls. newline \<notin> set l"
    and "termLines ls" and "\<exists>l \<in> set ls. includes_str l ''element vertex''"
    and "\<not> includes_str (last ls) ''element vertex''"
    and "0 < V"
  shows "sum_list (map (\<lambda>i. readableCount (emitted st payload M V w fs i)) [0..<chunkCount M V])
       = int M"
    and "concat (map (failureOf (emitted st payload M V w fs)) [0..<chunkCount M V]) = []"
proof -
  let ?K = "chunkCount M V"
  have "map (\<lambda>i. readableCount (emitted st payload M V w fs i)) [0..<?K]
      = map (\<lambda>i. int (chunkVertices M V i)) [0..<?K]"
    by (rule map_cong)
      (simp_all add: emitted_def readableCount_def chunkContent_facts(2) [OF assms(1-6)])
  also have "\<dots> = map int (map (chunkVertices M V) [0..<?K])"
    by simp
  finally have "sum_list (map (\<lambda>i. readableCount (emitted st payload M V w fs i)) [0..<?K])
      = int (sum_list (map (chunkVertices M V) [0..<?K]))"
    by (simp only: sum_list_of_nat)
  also have "sum_list (map (chunkVertices M V) [0..<?K]) = min (?K * V) M"
    using sum_chunks [of V M ?K] by (simp add: chunkVertices_def [abs_def])
  also have "\<dots> = M"
    using chunkCount_covers [OF assms(7), of M] by (simp add: min_def)
  finally show "sum_list (map (\<lambda>i. readableCount (emitted st payload M V w fs i)) [0..<?K])
      = int M" .
  have "failureOf (emitted st payload M V w fs) i = []" if "i < ?K" for i
    using that by (simp add: failureOf_def emitted_def chunkContent_facts(1) [OF assms(1-6)])
  then show "concat (map (failureOf (emitted st payload M V w fs)) [0..<?K]) = []"
    by simp
qed

lemma verifyChunks_emitted:
  assumes "originalHeader st = unlines ls" and "ls \<noteq> []" and "\<forall>l \<in> set ls. newline \<notin> set l"
    and "termLines ls" and "\<exists>l \<in> set ls. includes_str l ''element vertex''"
    and "\<not> includes_str (last ls) ''element vertex''"
    and "0 < V" and "vertexCount st = Number (int M)"
  shows "verifyChunks st (emitted st payload M V w fs) (Number (int (chunkCount M V))) tp
     = Inr \<lparr>numChunks = Number (int (chunkCount M V)), totalVertices = Number (int M),
            processedVertices = tp, failedChunks = []\<rparr>"
proof -
  have "verifyPass (emitted st payload M V w fs) (chunkCount M V) = (Number (int M), [])"
    unfolding verifyPass_def verifyPass_foldl
    by (simp add: emitted_counts [OF assms(1-7)])
  then show ?thesis
    by (simp add: verifyChunks_def iterations_def assms(8) absDiff_def positive_def)
qed

lemma mergeChunks_emitted:
  assumes "originalHeader st = unlines ls" and "ls \<noteq> []" and "\<forall>l \<in> set ls. newline \<notin> set l"
    and "termLines ls" and "\<exists>l \<in> set ls. includes_str l ''element vertex''"
    and "\<not> includes_str (last ls) ''element vertex''"
    and "0 < V" and "length payload = M * w"
  shows "mergeChunks st (emitted st payload M V w fs) [0..<chunkCount M V]
     = Inr \<lparr>content = createChunkHeader st (Number (int M)) @ payload,
            mergedCount = Number (int M)\<rparr>"
proof -
  let ?K = "chunkCount M V"
  let ?cs = "map (chunkContent st payload M V w) [0..<?K]"
  have rd: "map (emitted st payload M V w fs) [0..<?K] = map Some ?cs"
    by (simp add: emitted_def)
  have "map declaredCount ?cs = map int (map (chunkVertices M V) [0..<?K])"
    by (simp add: chunkContent_facts(2) [OF assms(1-6)])
  then have "sum_list (map declaredCount ?cs) = int (sum_list (map (chunkVertices M V) [0..<?K]))"
    by (simp only: sum_list_of_nat)
  also have "sum_list (map (chunkVertices M V) [0..<?K]) = min (?K * V) M"
    using sum_chunks [of V M ?K] by (simp add: chunkVertices_def [abs_def])
  also have "\<dots> = M"
    using chunkCount_covers [OF assms(7), of M] by (simp add: min_def)
  finally have total: "sum_list (map declaredCount ?cs) = int M" .
  have "concat (map (\<lambda>c. vertexData (readChunkPly c)) ?cs)
      = concat (map (chunkBytes payload M V w) [0..<?K])"
    by (simp add: comp_def chunkContent_facts(3) [OF assms(1-6)])
  also have "\<dots> = take (min (?K * V) M * w) payload"
    using concat_chunks [OF assms(8), of V ?K] by (simp add: chunkBytes_def [abs_def])
  also have "\<dots> = payload"
    using chunkCount_covers [OF assms(7), of M] by (simp add: min_def assms(8))
  finally have bytes: "concat (map (\<lambda>c. vertexData (readChunkPly c)) ?cs) = payload" .
  have "mergeLoop (emitted st payload M V w fs) [0..<?K] (Number 0, [])
      = Inr (Number (0 + sum_list (map declaredCount ?cs)),
             [] @ concat (map (\<lambda>c. vertexData (readChunkPly c)) ?cs))"
    by (rule mergeLoop_eq [OF rd])
  then have "mergeLoop (emitted st payload M V w fs) [0..<?K] (Number 0, [])
      = Inr (Number (int M), payload)"
    by (simp only: total bytes) simp
  then show ?thesis
    by (simp add: mergeChunks_def)
qed

lemma createGroups_all:
  assumes "originalHeader st \<noteq> []" and "0 < K"
  shows "createGroups st saved fs K (- 1)
     = Some (Inr [\<lparr>groupId = 0, groupIndices = [0..<K], result = mergeChunks st fs [0..<K]\<rparr>])"
proof -
  have k: "0 < int K" using assms(2) by simp
  have "(int K - 0 + int K - 1) div int K = 1"
    using k by (intro int_div_pos_eq [where r = "int K - 1"]) simp_all
  then have loop: "groupsLoop st fs (int K) (int K) 0 []
      = Some [groupAt st fs (int K) (int K) 0]"
    using groupsLoop_runs [OF k, of st fs "int K" 0 "[]"] by simp
  have "map (\<lambda>idx. nat (0 + int idx)) [0..<K] = [0..<K]"
    by (simp add: map_idI)
  then have "groupAt st fs (int K) (int K) 0
      = \<lparr>groupId = 0, groupIndices = [0..<K], result = mergeChunks st fs [0..<K]\<rparr>"
    by (simp add: groupAt_def Let_def rnd_def)
  then show ?thesis
    using assms(1) by (simp add: createGroups_def Let_def loop)
qed

text \<open>
  C2, as the code has it. Take a file whose header is ASCII, ends with the terminator line,
  has a line containing \<open>element vertex\<close> and none in its terminator line, whose vertex
  count \<open>n\<close> is at least 1 and whose payload has \<open>n * w\<close> bytes (counts and
  lengths below \<open>2 ^ 53\<close>), and let the chunk size be an integer \<open>v\<close>. Then
  \<open>split\<close> writes \<open>N = ceil (n / v)\<close> chunks and its verification succeeds with no
  failed chunk; merging with the group size \<open>-1\<close>, in a chunk directory that holds
  these \<open>N\<close> files, gives one group, whose file is the header rewritten for \<open>n\<close>
  vertices followed by the original payload, byte for byte. The lines of that header are
  those of the original header, the lines containing \<open>element vertex\<close> rewritten.
\<close>

theorem split_then_merge_all:
  fixes w :: nat and n v :: int
  assumes "find_first terminator data \<noteq> None"
    and "readPlyHeader st data = (st', p)"
    and "\<exists>l \<in> set (split_on newline (originalHeader st')). includes_str l ''element vertex''"
    and "\<not> includes_str (last (butlast (split_on newline (originalHeader st')))) ''element vertex''"
    and "vertexCount st' = Number n" and "1 \<le> n" and "n < 2 ^ 53"
    and "length (vertexData p) = nat n * w" and "length (vertexData p) < 2 ^ 53"
    and "verticesPerChunk st targetSizeBytes = Number v"
    and "isAscii (originalHeader st')"
  defines "N \<equiv> (n + v - 1) div v"
  shows "\<exists>fs'. split_file st data fs targetSizeBytes
           = (st', fs', Inr \<lparr>numChunks = Number N, totalVertices = Number n,
                               processedVertices = n, failedChunks = []\<rparr>)
     \<and> createGroups st' saved fs' (nat N) (- 1)
           = Some (Inr [\<lparr>groupId = 0, groupIndices = [0..<nat N],
                         result = Inr \<lparr>content = createChunkHeader st' (Number n) @ vertexData p,
                                       mergedCount = Number n\<rparr>\<rparr>])
     \<and> data = originalHeader st' @ vertexData p
     \<and> split_on newline (createChunkHeader st' (Number n))
           = map (rewriteLine (Number n)) (split_on newline (originalHeader st'))"
proof -
  obtain i where i: "find_first terminator data = Some i"
    using assms(1) by auto
  have h: "originalHeader st' = take (i + 11) data" and pl: "vertexData p = drop (i + 11) data"
    using readPlyHeader_parts [OF i assms(2)] by simp_all
  obtain ls where ls: "originalHeader st' = unlines ls" "ls \<noteq> []"
    "\<forall>l \<in> set ls. newline \<notin> set l" "split_on newline (originalHeader st') = ls @ [[]]"
    "termLines ls"
    using header_structure [OF i h] by blast
  have "\<not> includes_str [] ''element vertex''"
    by (simp add: includes_str_def)
  then have inc: "\<exists>l \<in> set ls. includes_str l ''element vertex''"
    using assms(3) by (auto simp: ls(4))
  have lastl: "\<not> includes_str (last ls) ''element vertex''"
    using assms(4) by (simp add: ls(4))
  define V where "V = nat v"
  define M where "M = nat n"
  have v1: "1 \<le> v" using assms(10) by (rule verticesPerChunk_Number)
  then have V: "0 < V" "int V = v" by (simp_all add: V_def)
  have M: "0 < M" "int M = n" using assms(6) by (simp_all add: M_def)
  have len: "length (vertexData p) = M * w" "M * w < 2 ^ 53"
    using assms(8,9) by (simp_all add: M_def)
  have "int (M + V - 1) = n + v - 1"
    using V M by (simp add: of_nat_diff)
  then have K: "int (chunkCount M V) = N"
    unfolding chunkCount_def N_def by (simp only: zdiv_int V(2))
  then have natN: "nat N = chunkCount M V" by simp
  have nc: "numChunksOf (Number n) (Number v) = Number N"
    using ceiling_rnd_div [of v n] v1 assms(6,7) by (simp add: numChunksOf_def N_def)
  define fs' where "fs' = emitted st' (vertexData p) M V w fs"
  have emit: "emitChunks st' (vertexData p) v n (nat N) fs = (fs', n)"
    using emitChunks_emitted [OF V(1) M(1) len, of st' fs]
    by (simp add: V(2) M(2) natN fs'_def)
  have vcM: "vertexCount st' = Number (int M)"
    by (simp add: assms(5) M(2))
  have ver: "verifyChunks st' fs' (Number N) n
      = Inr \<lparr>numChunks = Number N, totalVertices = Number n,
             processedVertices = n, failedChunks = []\<rparr>"
    using verifyChunks_emitted [OF ls(1-3) ls(5) inc lastl V(1) vcM, of "vertexData p" w fs n]
    by (simp add: fs'_def K M(2))
  have split: "split_file st data fs targetSizeBytes
      = (st', fs', Inr \<lparr>numChunks = Number N, totalVertices = Number n,
                        processedVertices = n, failedChunks = []\<rparr>)"
    by (simp add: split_file_def Let_def assms(2,5,10) nc iterations_def emit ver)
  have mer: "mergeChunks st' fs' [0..<nat N]
      = Inr \<lparr>content = createChunkHeader st' (Number n) @ vertexData p,
             mergedCount = Number n\<rparr>"
    using mergeChunks_emitted [OF ls(1-3) ls(5) inc lastl V(1) len(1), of fs]
    by (simp add: fs'_def natN M(2))
  have hne: "originalHeader st' \<noteq> []"
    using ls(2) by (cases ls) (simp_all add: ls(1) unlines_Cons)
  have grp: "createGroups st' saved fs' (nat N) (- 1)
      = Some (Inr [\<lparr>groupId = 0, groupIndices = [0..<nat N],
                    result = Inr \<lparr>content = createChunkHeader st' (Number n) @ vertexData p,
                                  mergedCount = Number n\<rparr>\<rparr>])"
    using createGroups_all [OF hne, of "nat N" saved fs'] chunkCount_pos [OF V(1) M(1)]
    by (simp add: natN mer [unfolded natN])
  have dat: "data = originalHeader st' @ vertexData p"
    by (simp add: h pl)
  have "suffix [newline] (originalHeader st')"
    unfolding ls(1) using ls(2) by (rule unlines_ends)
  then have lines: "split_on newline (createChunkHeader st' (Number n))
      = map (rewriteLine (Number n)) (split_on newline (originalHeader st'))"
    by (simp add: createChunkHeader_lines endsWith_def)
  show ?thesis
    using split grp dat lines by blast
qed

lemma rt_state: "roundTripState = \<lparr>originalHeader = plainHeader, vertexCount = Number 12,
    propertyTypes = [(''x'', ''float'')], maxShDegree = 0\<rparr>"
  by code_simp

lemma rt_read: "readPlyHeader roundTripState roundTripData
    = (roundTripState, \<lparr>headerEndIndex = 50, vertexData = payload48\<rparr>)"
  by code_simp

text \<open>
  12 vertices of 4 bytes with the budget 52: 3 chunks, and the merged file is the
  original file.
\<close>

theorem split_then_merge_all_witness:
  "\<exists>fs'. split_file roundTripState roundTripData Map.empty 52
           = (roundTripState, fs', Inr \<lparr>numChunks = Number 3, totalVertices = Number 12,
                               processedVertices = 12, failedChunks = []\<rparr>)
     \<and> createGroups roundTripState None fs' 3 (- 1)
           = Some (Inr [\<lparr>groupId = 0, groupIndices = [0, 1, 2],
                         result = Inr \<lparr>content = roundTripData, mergedCount = Number 12\<rparr>\<rparr>])"
proof -
  let ?p = "\<lparr>headerEndIndex = 50, vertexData = payload48\<rparr>"
  have a1: "find_first terminator roundTripData \<noteq> None"
    by code_simp
  have a3: "\<exists>l \<in> set (split_on newline (originalHeader roundTripState)).
      includes_str l ''element vertex''"
    by code_simp
  have a4: "\<not> includes_str (last (butlast (split_on newline (originalHeader roundTripState))))
      ''element vertex''"
    by code_simp
  have a5: "vertexCount roundTripState = Number 12"
    by (simp add: rt_state)
  have a8: "length (vertexData ?p) = nat 12 * 4"
    by (simp add: payload48_def)
  have a9: "length (vertexData ?p) < 2 ^ 53"
    by (simp add: payload48_def)
  have a10: "verticesPerChunk roundTripState 52 = Number 4"
    by code_simp
  have a11: "isAscii (originalHeader roundTripState)"
    by code_simp
  have h: "createChunkHeader roundTripState (Number 12) @ vertexData ?p = roundTripData"
    by code_simp
  have k: "nat ((12 + 4 - 1) div 4) = 3" "(12 + 4 - 1) div 4 = (3 :: int)" "nat 3 = 3"
    by simp_all
  have u: "[0..<3] = [0, 1, 2 :: nat]"
    by code_simp
  from split_then_merge_all [OF a1 rt_read a3 a4 a5 _ _ a8 a9 a10 a11, of Map.empty None]
  obtain fs' where
    s: "split_file roundTripState roundTripData Map.empty 52
          = (roundTripState, fs',
             Inr \<lparr>numChunks = Number ((12 + 4 - 1) div 4), totalVertices = Number 12,
                   processedVertices = 12, failedChunks = []\<rparr>)"
    and g: "createGroups roundTripState None fs' (nat ((12 + 4 - 1) div 4)) (- 1)
          = Some (Inr [\<lparr>groupId = 0, groupIndices = [0..<nat ((12 + 4 - 1) div 4)],
                        result = Inr \<lparr>content = createChunkHeader roundTripState (Number 12)
                                                  @ vertexData ?p,
                                      mergedCount = Number 12\<rparr>\<rparr>])"
    by auto
  show ?thesis
  proof (intro exI [of _ fs'] conjI)
    show "split_file roundTripState roundTripData Map.empty 52
        = (roundTripState, fs', Inr \<lparr>numChunks = Number 3, totalVertices = Number 12,
                               processedVertices = 12, failedChunks = []\<rparr>)"
      using s by (simp only: k)
    show "createGroups roundTripState None fs' 3 (- 1)
        = Some (Inr [\<lparr>groupId = 0, groupIndices = [0, 1, 2],
                      result = Inr \<lparr>content = roundTripData, mergedCount = Number 12\<rparr>\<rparr>])"
      using g by (simp only: k h u)
  qed
qed

text \<open>
  A file that declares 0 vertices and has an empty payload: the split writes no chunk and
  succeeds, and merging with the group size \<open>-1\<close> produces no group and no file.
\<close>

theorem split_then_merge_empty_counterexample:
  "vertexCount (fst (readPlyHeader initial emptyCloud)) = Number 0
   \<and> vertexData (snd (readPlyHeader initial emptyCloud)) = []
   \<and> snd (snd (split_file (fst (readPlyHeader initial emptyCloud)) emptyCloud noChunks 566))
       = Inr \<lparr>numChunks = Number 0, totalVertices = Number 0, processedVertices = 0,
                failedChunks = []\<rparr>
   \<and> createGroups
         (fst (split_file (fst (readPlyHeader initial emptyCloud)) emptyCloud noChunks 566))
         None
         (fst (snd (split_file (fst (readPlyHeader initial emptyCloud)) emptyCloud noChunks 566)))
         0 (- 1)
       = Some (Inr [])"
  by code_simp

end
